theory Spec2Isabelle
  imports Main "HOL-Library.Multiset" "HOL-Library.Char_ord" "HOL-Library.List_Lexorder"
begin

section \<open>Data model\<close>

text \<open>
  The desk layout of \<^verbatim>\<open>frontend/src/calculateDeskLayout.ts\<close> and the helper
  \<^verbatim>\<open>reorderSubArray\<close> of \<^verbatim>\<open>helper/array\<close>. JavaScript numbers that hold array
  indices, enum ordinals and comparator results are integers in every run of this code
  and are modelled as \<open>int\<close>; the three counters of the classifier only count up from
  zero and are \<open>nat\<close>.
\<close>

datatype DogStatus = Avoid | Like | Have

record Team =
  team_id :: string
  team_name :: string

text \<open>
  Modelled from the spec: the type \<^verbatim>\<open>Person = PeopleQuery['people'][0]\<close> comes from the
  generated GraphQL types, which are not among the sources. The spec gives its shape:
  an id, an optional team (id and name) and a dog status. An absent team (\<^verbatim>\<open>null\<close> or
  \<^verbatim>\<open>undefined\<close>) is \<open>None\<close>.
\<close>

record Person =
  person_id :: string
  team :: "Team option"
  dogStatus :: DogStatus

datatype TeamCategory = DOG_HATERS | MIXED | NO_TEAM | DOG_LOVERS

text \<open>The numeric value of each member of the enum, in declaration order.\<close>

fun categoryOrdinal :: "TeamCategory \<Rightarrow> int" where
  "categoryOrdinal DOG_HATERS = 0"
| "categoryOrdinal MIXED = 1"
| "categoryOrdinal NO_TEAM = 2"
| "categoryOrdinal DOG_LOVERS = 3"

text \<open>\<^verbatim>\<open>teamId: string | null\<close>: \<open>None\<close> is \<^verbatim>\<open>null\<close>.\<close>

record TeamSummary =
  teamId :: "string option"
  category :: TeamCategory

fun DogStatusOrder :: "DogStatus \<Rightarrow> int" where
  "DogStatusOrder Avoid = 1"
| "DogStatusOrder Like = 2"
| "DogStatusOrder Have = 3"

text \<open>\<^verbatim>\<open>person.team?.id\<close>: the id of the team, \<^verbatim>\<open>undefined\<close> (\<open>None\<close>) without a team.\<close>

definition teamIdOf :: "Person \<Rightarrow> string option" where
  "teamIdOf person = map_option team_id (team person)"

text \<open>
  JavaScript truthiness of a value of type \<^verbatim>\<open>string | undefined\<close> or \<^verbatim>\<open>string | null\<close>:
  \<^verbatim>\<open>undefined\<close>, \<^verbatim>\<open>null\<close> and the empty string are falsy.
\<close>

fun truthy :: "string option \<Rightarrow> bool" where
  "truthy None = False"
| "truthy (Some s) = (s \<noteq> [])"

section \<open>Host functions\<close>

text \<open>
  \<^verbatim>\<open>String.prototype.localeCompare\<close> belongs to the host, not to the repository: its
  order is the collation of the engine's locale. The two comparators that call it take
  it as their first argument \<open>localeCompare\<close>, and so does everything built on them;
  a theorem about these functions holds for every collation unless it names one.

  Two collations serve the concrete runs. The first compares character codes. The
  second gives no weight to control characters, as the default collation of the
  engines does, so it returns 0 for some pairs of different strings.
\<close>

definition codePointCompare :: "string \<Rightarrow> string \<Rightarrow> int" where
  "codePointCompare a b = (if a < b then - 1 else if a = b then 0 else 1)"

definition ignorable :: "char \<Rightarrow> bool" where
  "ignorable c \<longleftrightarrow>
     (of_char c :: nat) < 9 \<or> (13 < (of_char c :: nat) \<and> (of_char c :: nat) < 32) \<or>
     (of_char c :: nat) = 127"

definition compareIgnoringControls :: "string \<Rightarrow> string \<Rightarrow> int" where
  "compareIgnoringControls a b =
     codePointCompare (filter (\<lambda>c. \<not> ignorable c) a) (filter (\<lambda>c. \<not> ignorable c) b)"

text \<open>
  \<^verbatim>\<open>Array.prototype.sort\<close> with a comparator. ECMAScript requires the sort to be stable:
  for a consistent comparator the result is the one ordering that is sorted and keeps
  equal elements in their input order, which insertion from the right computes. For a
  comparator that is not consistent on the elements the standard leaves the order to
  the engine; the model then still returns a permutation of its input. The theorems
  about layouts use of the first sort only that it permutes, and every layout evaluated
  below is of an input on which both comparators are consistent, unless it says so.
\<close>

fun insertBy :: "('a \<Rightarrow> 'a \<Rightarrow> int) \<Rightarrow> 'a \<Rightarrow> 'a list \<Rightarrow> 'a list" where
  "insertBy cmp x [] = [x]"
| "insertBy cmp x (y # ys) = (if cmp x y \<le> 0 then x # y # ys else y # insertBy cmp x ys)"

definition sortJS :: "('a \<Rightarrow> 'a \<Rightarrow> int) \<Rightarrow> 'a list \<Rightarrow> 'a list" where
  "sortJS cmp xs = foldr (insertBy cmp) xs []"

text \<open>
  \<^verbatim>\<open>Array.prototype.slice(begin, end)\<close> on integer arguments: a negative index counts from
  the end, and both are clamped to the array.
\<close>

definition sliceJS :: "'a list \<Rightarrow> int \<Rightarrow> int \<Rightarrow> 'a list" where
  "sliceJS xs b e =
     (let n = int (length xs);
          k = (if b < 0 then max (n + b) 0 else min b n);
          fin = (if e < 0 then max (n + e) 0 else min e n)
      in take (nat (fin - k)) (drop (nat k) xs))"

text \<open>\<^verbatim>\<open>slice(begin)\<close>: up to the end of the array.\<close>

definition sliceFrom :: "'a list \<Rightarrow> int \<Rightarrow> 'a list" where
  "sliceFrom xs b = sliceJS xs b (int (length xs))"

section \<open>The subarray transform utility\<close>

text \<open>
  The message of \<^verbatim>\<open>console.warn\<close> carries the two indices; the console is the list of
  warnings written so far.
\<close>

datatype Warning = InvalidIndices int int

text \<open>
  \<^verbatim>\<open>reorderSubArray(array, start, end, reOrderLogic)\<close> returns the new array and the
  warnings it wrote to the console.
\<close>

definition reorderSubArray ::
  "'a list \<Rightarrow> int \<Rightarrow> int \<Rightarrow> ('a list \<Rightarrow> 'a list) \<Rightarrow> 'a list \<times> Warning list" where
  "reorderSubArray array start endIdx reOrderLogic =
     (if start < 0 \<or> endIdx \<ge> int (length array) \<or> start > endIdx
      then (array, [InvalidIndices start endIdx])
      else
        let before = sliceJS array 0 start;
            after = sliceFrom array (endIdx + 1);
            targetSubarray = sliceJS array start (endIdx + 1)
        in (before @ reOrderLogic targetSubarray @ after, []))"

section \<open>The primary grouping comparator\<close>

definition sortByTeamAndDogStatus ::
  "(string \<Rightarrow> string \<Rightarrow> int) \<Rightarrow> Person \<Rightarrow> Person \<Rightarrow> int" where
  "sortByTeamAndDogStatus localeCompare personA personB =
     (let byDogStatus =
            (if DogStatusOrder (dogStatus personA) < DogStatusOrder (dogStatus personB) then - 1
             else if DogStatusOrder (dogStatus personA) > DogStatusOrder (dogStatus personB) then 1
             else 0)
      in case (team personA, team personB) of
           (Some teamA, Some teamB) \<Rightarrow>
             if team_id teamA \<noteq> team_id teamB
             then localeCompare (team_id teamA) (team_id teamB)
             else byDogStatus
         | _ \<Rightarrow> byDogStatus)"

section \<open>The team classifier\<close>

record DogStatusCount =
  AVOID :: nat
  LIKE :: nat
  HAVE :: nat

definition categoriseTeam :: "DogStatusCount \<Rightarrow> TeamCategory" where
  "categoriseTeam teamDogStatusCount =
     (if AVOID teamDogStatusCount = 0 then DOG_LOVERS
      else if HAVE teamDogStatusCount = 0 then DOG_HATERS
      else if AVOID teamDogStatusCount > 0 \<and> HAVE teamDogStatusCount > 0 then MIXED
      else NO_TEAM)"

text \<open>
  The state of the scan of \<^verbatim>\<open>sortTeamsByCategory\<close>: the three counters, the summary
  under construction (\<^verbatim>\<open>currTeam\<close> in the source) and the summaries pushed so far.
\<close>

record ClassifierState =
  teamDogStatusCount :: DogStatusCount
  currSummary :: TeamSummary
  teamSummaries :: "TeamSummary list"

definition zeroCount :: DogStatusCount where
  "zeroCount = \<lparr>AVOID = 0, LIKE = 0, HAVE = 0\<rparr>"

text \<open>The \<^verbatim>\<open>switch\<close> on the dog status of one person.\<close>

fun countStatus :: "DogStatus \<Rightarrow> DogStatusCount \<Rightarrow> DogStatusCount" where
  "countStatus Avoid c = c\<lparr>AVOID := AVOID c + 1\<rparr>"
| "countStatus Have c = c\<lparr>HAVE := HAVE c + 1\<rparr>"
| "countStatus Like c = c\<lparr>LIKE := LIKE c + 1\<rparr>"

text \<open>
  One iteration of the \<^verbatim>\<open>forEach\<close>. The first test is on the truthiness of the current
  team id, so it also fires while the current run is a teamless one (or has the empty
  id): the summary under construction is then replaced without being pushed and the
  counters are kept.
\<close>

definition classifyStep :: "ClassifierState \<Rightarrow> Person \<Rightarrow> ClassifierState" where
  "classifyStep s person =
     (let s1 = (if \<not> truthy (teamId (currSummary s))
                then s\<lparr>currSummary := \<lparr>teamId = teamIdOf person, category = NO_TEAM\<rparr>\<rparr>
                else s);
          s2 = (if teamId (currSummary s1) \<noteq> teamIdOf person
                then s1\<lparr>teamSummaries :=
                           teamSummaries s1 @
                             [(currSummary s1)\<lparr>category := categoriseTeam (teamDogStatusCount s1)\<rparr>],
                         currSummary := \<lparr>teamId = teamIdOf person, category = NO_TEAM\<rparr>,
                         teamDogStatusCount := zeroCount\<rparr>
                else s1)
      in s2\<lparr>teamDogStatusCount := countStatus (dogStatus person) (teamDogStatusCount s2)\<rparr>)"

definition classifierInit :: ClassifierState where
  "classifierInit =
     \<lparr>teamDogStatusCount = zeroCount,
      currSummary = \<lparr>teamId = None, category = NO_TEAM\<rparr>,
      teamSummaries = []\<rparr>"

text \<open>The summaries pushed by the scan and by the statement after it, before the sort.\<close>

definition closedSummaries :: "Person list \<Rightarrow> TeamSummary list" where
  "closedSummaries people =
     (let s = foldl classifyStep classifierInit people
      in teamSummaries s @ [(currSummary s)\<lparr>category := categoriseTeam (teamDogStatusCount s)\<rparr>])"

definition byCategory :: "TeamSummary \<Rightarrow> TeamSummary \<Rightarrow> int" where
  "byCategory teamA teamB = categoryOrdinal (category teamA) - categoryOrdinal (category teamB)"

definition sortTeamsByCategory :: "Person list \<Rightarrow> TeamSummary list" where
  "sortTeamsByCategory people = sortJS byCategory (closedSummaries people)"

section \<open>The interleave transform\<close>

text \<open>
  \<^verbatim>\<open>findIndex\<close> with the predicate "index > 0 and the dog status differs from that of the
  first element": \<open>None\<close> is the result \<^verbatim>\<open>-1\<close>.
\<close>

fun findSplitFrom :: "DogStatus \<Rightarrow> nat \<Rightarrow> Person list \<Rightarrow> nat option" where
  "findSplitFrom d i [] = None"
| "findSplitFrom d i (p # ps) =
     (if i > 0 \<and> dogStatus p \<noteq> d then Some i else findSplitFrom d (Suc i) ps)"

definition splitPoint :: "Person list \<Rightarrow> nat option" where
  "splitPoint subArray =
     (case subArray of [] \<Rightarrow> None | p # ps \<Rightarrow> findSplitFrom (dogStatus p) 0 subArray)"

text \<open>
  The three \<^verbatim>\<open>while\<close> loops: one element of each group in turn while both cursors are
  inside their group, then the rest of the group that is not exhausted.
\<close>

fun alternate :: "'a list \<Rightarrow> 'a list \<Rightarrow> 'a list" where
  "alternate (a # groupA) (b # groupB) = a # b # alternate groupA groupB"
| "alternate groupA [] = groupA"
| "alternate [] groupB = groupB"

definition insertPeopleWithDogLogic :: "Person list \<Rightarrow> Person list" where
  "insertPeopleWithDogLogic subArray =
     (if length subArray \<le> 3 then subArray
      else case splitPoint subArray of
             Some k \<Rightarrow> alternate (sliceJS subArray 0 (int k)) (sliceFrom subArray (int k))
           | None \<Rightarrow> subArray)"

section \<open>The category ranker and the interleaving pass\<close>

text \<open>
  The keys of the JavaScript \<^verbatim>\<open>Map\<close>. The casts \<^verbatim>\<open>as string\<close> do nothing at run time:
  \<^verbatim>\<open>set\<close> is called with the summary's \<^verbatim>\<open>teamId\<close>, a string or \<^verbatim>\<open>null\<close>, and \<^verbatim>\<open>get\<close> with
  \<^verbatim>\<open>person.team?.id\<close>, a string or \<^verbatim>\<open>undefined\<close>. The map compares keys by identity of
  value, so \<^verbatim>\<open>null\<close> and \<^verbatim>\<open>undefined\<close> are different keys.
\<close>

datatype MapKey = KeyNull | KeyUndefined | KeyString string

fun summaryKey :: "string option \<Rightarrow> MapKey" where
  "summaryKey None = KeyNull"
| "summaryKey (Some s) = KeyString s"

fun lookupKey :: "string option \<Rightarrow> MapKey" where
  "lookupKey None = KeyUndefined"
| "lookupKey (Some s) = KeyString s"

definition buildTeamRankMap :: "TeamSummary list \<Rightarrow> (MapKey \<rightharpoonup> int)" where
  "buildTeamRankMap summaries =
     foldl (\<lambda>m tp. m(summaryKey (teamId tp) \<mapsto> categoryOrdinal (category tp))) Map.empty summaries"

definition MAX_SAFE_INTEGER :: int where
  "MAX_SAFE_INTEGER = 9007199254740991"

definition rankOf :: "(MapKey \<rightharpoonup> int) \<Rightarrow> Person \<Rightarrow> int" where
  "rankOf teamRankMap person =
     (case teamRankMap (lookupKey (teamIdOf person)) of
        Some r \<Rightarrow> r
      | None \<Rightarrow> MAX_SAFE_INTEGER)"

definition byTeamRank ::
  "(string \<Rightarrow> string \<Rightarrow> int) \<Rightarrow> (MapKey \<rightharpoonup> int) \<Rightarrow> Person \<Rightarrow> Person \<Rightarrow> int" where
  "byTeamRank localeCompare teamRankMap personA personB =
     (let rankA = rankOf teamRankMap personA;
          rankB = rankOf teamRankMap personB
      in if rankA \<noteq> rankB then rankA - rankB
         else case (team personA, team personB) of
                (Some teamA, Some teamB) \<Rightarrow>
                  (let teamIdComparison = localeCompare (team_id teamA) (team_id teamB)
                   in if teamIdComparison \<noteq> 0 then teamIdComparison else 0)
              | _ \<Rightarrow> 0)"

text \<open>
  The state of the last scan: the three variables of the source, the array under
  construction and the console.
\<close>

record ScanState =
  currTeam :: "string option"
  startPointer :: int
  startSearchFlag :: bool
  updatedPeople :: "Person list"
  console :: "Warning list"

text \<open>The call of the helper, with its result stored and its warnings appended.\<close>

definition flushRun :: "ScanState \<Rightarrow> int \<Rightarrow> ScanState" where
  "flushRun s endIdx =
     (let (arr, warned) =
            reorderSubArray (updatedPeople s) (startPointer s) endIdx insertPeopleWithDogLogic
      in s\<lparr>updatedPeople := arr, console := console s @ warned\<rparr>)"

definition scanStep :: "ScanState \<Rightarrow> Person \<Rightarrow> int \<Rightarrow> ScanState" where
  "scanStep s person index =
     (let s1 = (if \<not> truthy (currTeam s) then s\<lparr>currTeam := teamIdOf person\<rparr> else s);
          s2 = (if startSearchFlag s1 \<and>
                   (teamIdOf person \<noteq> currTeam s1 \<or>
                    (teamIdOf person = currTeam s1 \<and> dogStatus person = Avoid))
                then (flushRun s1 (index - 1))\<lparr>startSearchFlag := False\<rparr>
                else s1)
      in if \<not> startSearchFlag s2 \<and> dogStatus person \<noteq> Avoid
         then s2\<lparr>currTeam := teamIdOf person, startPointer := index, startSearchFlag := True\<rparr>
         else s2)"

text \<open>The \<^verbatim>\<open>forEach\<close> over the sorted people, from the given index on.\<close>

fun scanFrom :: "int \<Rightarrow> Person list \<Rightarrow> ScanState \<Rightarrow> ScanState" where
  "scanFrom index [] s = s"
| "scanFrom index (person # rest) s = scanFrom (index + 1) rest (scanStep s person index)"

definition interleavingPass :: "Person list \<Rightarrow> ScanState" where
  "interleavingPass sortedPeople =
     (let s = scanFrom 0 sortedPeople
                \<lparr>currTeam = None, startPointer = 0, startSearchFlag = False,
                 updatedPeople = sortedPeople, console = []\<rparr>
      in if startSearchFlag s then flushRun s (int (length (updatedPeople s)) - 1) else s)"

text \<open>The people after the first sort, and after the second.\<close>

definition groupedPeople :: "(string \<Rightarrow> string \<Rightarrow> int) \<Rightarrow> Person list \<Rightarrow> Person list" where
  "groupedPeople localeCompare people = sortJS (sortByTeamAndDogStatus localeCompare) people"

definition rankedPeople :: "(string \<Rightarrow> string \<Rightarrow> int) \<Rightarrow> Person list \<Rightarrow> Person list" where
  "rankedPeople localeCompare grouped =
     sortJS (byTeamRank localeCompare (buildTeamRankMap (sortTeamsByCategory grouped))) grouped"

definition calculateDeskLayout :: "(string \<Rightarrow> string \<Rightarrow> int) \<Rightarrow> Person list \<Rightarrow> Person list" where
  "calculateDeskLayout localeCompare people =
     updatedPeople (interleavingPass (rankedPeople localeCompare (groupedPeople localeCompare people)))"

text \<open>What a call of \<^verbatim>\<open>calculateDeskLayout\<close> writes to the console.\<close>

definition calculateDeskLayoutConsole ::
  "(string \<Rightarrow> string \<Rightarrow> int) \<Rightarrow> Person list \<Rightarrow> Warning list" where
  "calculateDeskLayoutConsole localeCompare people =
     console (interleavingPass (rankedPeople localeCompare (groupedPeople localeCompare people)))"

section \<open>Properties of layouts, runs and interleavings\<close>

text \<open>
  A team id is valid when it is not the empty string. The source tests "no current
  team" by truthiness, which the empty string fails like \<^verbatim>\<open>undefined\<close> and \<^verbatim>\<open>null\<close> do.
\<close>

definition validTeamIds :: "Person list \<Rightarrow> bool" where
  "validTeamIds people = list_all (\<lambda>p. teamIdOf p \<noteq> Some []) people"

text \<open>
  A collation separates the strings when it is a total order on them: any two strings
  compare one way or the other, comparisons chain, and only equal strings compare
  equal in both directions.
\<close>

definition separatingCollation :: "(string \<Rightarrow> string \<Rightarrow> int) \<Rightarrow> bool" where
  "separatingCollation localeCompare \<longleftrightarrow>
     (\<forall>a b. localeCompare a b \<le> 0 \<or> localeCompare b a \<le> 0) \<and>
     (\<forall>a b c. localeCompare a b \<le> 0 \<and> localeCompare b c \<le> 0 \<longrightarrow> localeCompare a c \<le> 0) \<and>
     (\<forall>a b. localeCompare a b \<le> 0 \<and> localeCompare b a \<le> 0 \<longrightarrow> a = b)"

text \<open>
  Teammates sit together: between two people of one team sits nobody of another team
  and nobody without a team.
\<close>

definition contiguousTeams :: "Person list \<Rightarrow> bool" where
  "contiguousTeams xs =
     (\<forall>k \<in> {..<length xs}. \<forall>j \<in> {..<k}. \<forall>i \<in> {..<j}.
        team (xs ! i) \<noteq> None \<and> teamIdOf (xs ! i) = teamIdOf (xs ! k) \<longrightarrow>
        teamIdOf (xs ! j) = teamIdOf (xs ! i))"

text \<open>Every person without a team sits after every person with a team.\<close>

definition teamlessLast :: "Person list \<Rightarrow> bool" where
  "teamlessLast xs =
     (\<forall>i \<in> {..<length xs}. \<forall>j \<in> {..<length xs}.
        team (xs ! i) = None \<and> team (xs ! j) \<noteq> None \<longrightarrow> j < i)"

text \<open>
  The map from team id to category ordinal that a call of \<^verbatim>\<open>calculateDeskLayout\<close> builds.
\<close>

definition teamRankMapOf :: "(string \<Rightarrow> string \<Rightarrow> int) \<Rightarrow> Person list \<Rightarrow> (MapKey \<rightharpoonup> int)" where
  "teamRankMapOf localeCompare people =
     buildTeamRankMap (sortTeamsByCategory (groupedPeople localeCompare people))"

text \<open>
  The segment the category ordering of the spec gives a person: the ordinal of the
  category of the person's team, and the ordinal of NoTeam for a person without a team.
  The layout follows that ordering when the segments never decrease along it.
\<close>

definition segmentOf :: "(MapKey \<rightharpoonup> int) \<Rightarrow> Person \<Rightarrow> int" where
  "segmentOf teamRankMap person =
     (case team person of
        None \<Rightarrow> categoryOrdinal NO_TEAM
      | Some t \<Rightarrow> rankOf teamRankMap person)"

definition categoryOrdered :: "(string \<Rightarrow> string \<Rightarrow> int) \<Rightarrow> Person list \<Rightarrow> bool" where
  "categoryOrdered localeCompare people =
     (let layout = calculateDeskLayout localeCompare people; m = teamRankMapOf localeCompare people
      in \<forall>j \<in> {..<length layout}. \<forall>i \<in> {..<j}.
           segmentOf m (layout ! i) \<le> segmentOf m (layout ! j))"

text \<open>
  The contiguous team runs of a sequence, in the order they occur: a run is a maximal
  block of neighbours with the same team id (or all without a team).
\<close>

function teamRuns :: "Person list \<Rightarrow> Person list list" where
  "teamRuns [] = []"
| "teamRuns (p # ps) =
     (p # takeWhile (\<lambda>q. teamIdOf q = teamIdOf p) ps) #
     teamRuns (dropWhile (\<lambda>q. teamIdOf q = teamIdOf p) ps)"
  by pat_completeness auto
termination
  by (relation "measure length") (auto simp: less_Suc_eq_le length_dropWhile_le)

definition runTeamId :: "Person list \<Rightarrow> string option" where
  "runTeamId run = (case run of [] \<Rightarrow> None | p # _ \<Rightarrow> teamIdOf p)"

text \<open>The tolerance counts of one run, and the summary the spec gives the run.\<close>

definition countRun :: "Person list \<Rightarrow> DogStatusCount" where
  "countRun run =
     \<lparr>AVOID = length (filter (\<lambda>p. dogStatus p = Avoid) run),
      LIKE = length (filter (\<lambda>p. dogStatus p = Like) run),
      HAVE = length (filter (\<lambda>p. dogStatus p = Have) run)\<rparr>"

definition summariseRun :: "Person list \<Rightarrow> TeamSummary" where
  "summariseRun run = \<lparr>teamId = runTeamId run, category = categoriseTeam (countRun run)\<rparr>"

text \<open>
  The subgroup an element of an interleaving is drawn from, and the interleaving with
  every element tagged by its subgroup.
\<close>

datatype Subgroup = GroupA | GroupB

definition taggedAlternate :: "'a list \<Rightarrow> 'a list \<Rightarrow> (Subgroup \<times> 'a) list" where
  "taggedAlternate groupA groupB = alternate (map (Pair GroupA) groupA) (map (Pair GroupB) groupB)"

text \<open>The length of the longest block of equal neighbours.\<close>

fun maxRunFrom :: "'a \<Rightarrow> nat \<Rightarrow> 'a list \<Rightarrow> nat" where
  "maxRunFrom x n [] = n"
| "maxRunFrom x n (y # ys) = (if y = x then maxRunFrom x (Suc n) ys else max n (maxRunFrom y 1 ys))"

fun maxRun :: "'a list \<Rightarrow> nat" where
  "maxRun [] = 0"
| "maxRun (x # xs) = maxRunFrom x 1 xs"

text \<open>People for the concrete runs below: a name, a team id if any, a dog status.\<close>

definition person :: "string \<Rightarrow> string option \<Rightarrow> DogStatus \<Rightarrow> Person" where
  "person n t d =
     \<lparr>person_id = n, team = map_option (\<lambda>i. \<lparr>team_id = i, team_name = i\<rparr>) t, dogStatus = d\<rparr>"

text \<open>
  The invariant of the last scan before the person at \<open>index\<close>, for an array of \<open>n\<close>
  people: nothing was written to the console, the array under construction has kept
  its length, and an open run starts at an index that was already visited.
\<close>

definition scanInv :: "int \<Rightarrow> nat \<Rightarrow> ScanState \<Rightarrow> bool" where
  "scanInv index n s \<longleftrightarrow>
     console s = [] \<and> length (updatedPeople s) = n \<and>
     (startSearchFlag s \<longrightarrow> 0 \<le> startPointer s \<and> startPointer s < index)"

text \<open>Two runs of four non-avoiders of one team, for the interleave transform.\<close>

definition evenRun :: "Person list" where
  "evenRun = [person ''Alice'' (Some ''t'') Like, person ''Bob'' (Some ''t'') Like,
              person ''David'' (Some ''t'') Have, person ''Eve'' (Some ''t'') Have]"

definition shortLeadRun :: "Person list" where
  "shortLeadRun = [person ''Alice'' (Some ''t'') Like, person ''David'' (Some ''t'') Have,
              person ''Eve'' (Some ''t'') Have, person ''Faye'' (Some ''t'') Have]"

text \<open>Two grouped sequences for the classifier.\<close>

definition twoTeamsGrouped :: "Person list" where
  "twoTeamsGrouped = [person ''Ann'' (Some ''a'') Like, person ''Ben'' (Some ''b'') Avoid]"

definition threeRunsGrouped :: "Person list" where
  "threeRunsGrouped =
     [person ''Ann'' (Some ''a'') Like, person ''Amy'' (Some ''a'') Like,
      person ''Ben'' (Some ''b'') Avoid, person ''Ned'' None Have]"

definition teamlessFirstGrouped :: "Person list" where
  "teamlessFirstGrouped = [person ''Ned'' None Avoid, person ''Ben'' (Some ''b'') Have]"

text \<open>
  The invariant of the last scan over the people \<open>xs\<close>, before the person at index
  \<open>i\<close>: the array under construction has the team ids of \<open>xs\<close> position by position,
  and an open run holds people of the current team only.
\<close>

definition teamRunInv :: "Person list \<Rightarrow> nat \<Rightarrow> ScanState \<Rightarrow> bool" where
  "teamRunInv xs i s \<longleftrightarrow>
     map teamIdOf (updatedPeople s) = map teamIdOf xs \<and>
     (startSearchFlag s \<longrightarrow>
        0 \<le> startPointer s \<and> startPointer s < int i \<and>
        (\<forall>j. nat (startPointer s) \<le> j \<and> j < i \<longrightarrow> teamIdOf (xs ! j) = currTeam s))"

text \<open>Inputs for the concrete layouts below.\<close>

definition officeFloor :: "Person list" where
  "officeFloor =
     [person ''Alice'' (Some ''t'') Like, person ''Ned'' None Like, person ''Bob'' (Some ''t'') Like,
      person ''Ben'' (Some ''b'') Avoid, person ''Charlie'' (Some ''t'') Avoid,
      person ''David'' (Some ''t'') Have, person ''Eve'' (Some ''t'') Have]"

definition emptyIdFloor :: "Person list" where
  "emptyIdFloor =
     [person ''Pat'' (Some []) Like, person ''Ned'' None Like,
      person ''Pia'' (Some []) Like, person ''Nat'' None Like]"



definition loversAndTeamless :: "Person list" where
  "loversAndTeamless = [person ''Ann'' (Some ''a'') Like, person ''Ned'' None Like]"

text \<open>
  Two teams whose ids differ in a control character only: Pat and Pia are in the team
  with the id of the letter a followed by the character of code 1, Al is in team a.
\<close>

definition ignorableIdFloor :: "Person list" where
  "ignorableIdFloor =
     [person ''Pat'' (Some [CHR ''a'', CHR 0x01]) Like, person ''Al'' (Some ''a'') Like,
      person ''Pia'' (Some [CHR ''a'', CHR 0x01]) Like]"

definition ignorableIdFloorHave :: "Person list" where
  "ignorableIdFloorHave =
     [person ''Pat'' (Some [CHR ''a'', CHR 0x01]) Have, person ''Al'' (Some ''a'') Like,
      person ''Pia'' (Some [CHR ''a'', CHR 0x01]) Like]"

section \<open>The sort and the slices\<close>

lemma mset_insertBy: "mset (insertBy cmp x xs) = add_mset x (mset xs)"
  by (induction xs) auto

lemma mset_sortJS: "mset (sortJS cmp xs) = mset xs"
  by (induction xs) (auto simp: sortJS_def mset_insertBy)

lemma set_sortJS: "set (sortJS cmp xs) = set xs"
  using mset_sortJS [of cmp xs] by (metis set_mset_mset)

lemma length_sortJS: "length (sortJS cmp xs) = length xs"
  using mset_sortJS [of cmp xs] by (metis size_mset)

lemma sliceJS_valid:
  "0 \<le> b \<Longrightarrow> b \<le> e \<Longrightarrow> e \<le> int (length xs) \<Longrightarrow>
   sliceJS xs b e = take (nat (e - b)) (drop (nat b) xs)"
  by (simp add: sliceJS_def Let_def min_def)

lemma sliceJS_prefix: "0 \<le> e \<Longrightarrow> e \<le> int (length xs) \<Longrightarrow> sliceJS xs 0 e = take (nat e) xs"
  by (simp add: sliceJS_valid)

lemma sliceFrom_valid: "0 \<le> b \<Longrightarrow> b \<le> int (length xs) \<Longrightarrow> sliceFrom xs b = drop (nat b) xs"
  by (simp add: sliceFrom_def sliceJS_valid)

section \<open>The subarray transform utility: valid and invalid ranges\<close>

lemma reorderSubArray_inside:
  assumes "0 \<le> start" "start \<le> endIdx" "endIdx < int (length array)"
  shows "reorderSubArray array start endIdx f =
           (take (nat start) array @
            f (take (nat (endIdx - start + 1)) (drop (nat start) array)) @
            drop (nat (endIdx + 1)) array, [])"
proof -
  have e: "endIdx + 1 - start = endIdx - start + 1" by simp
  have "sliceJS array start (endIdx + 1) = take (nat (endIdx - start + 1)) (drop (nat start) array)"
    using assms sliceJS_valid [of start "endIdx + 1" array] by (simp only: e)
  then show ?thesis
    using assms by (simp add: reorderSubArray_def Let_def sliceJS_prefix sliceFrom_valid)
qed

lemma reorderSubArray_outside:
  assumes "start < 0 \<or> endIdx \<ge> int (length array) \<or> start > endIdx"
  shows "reorderSubArray array start endIdx f = (array, [InvalidIndices start endIdx])"
  using assms by (simp add: reorderSubArray_def)

text \<open>
  C8. With \<open>0 \<le> start \<le> end < length\<close> the result is the prefix before \<open>start\<close>, the
  transform applied to the elements at the indices \<open>start, ..., end\<close> and to nothing
  else, and the suffix after \<open>end\<close>; no warning is written. The elements before \<open>start\<close>
  and those after the transformed slice are the ones of the input.
\<close>

theorem reorderSubArray_valid_range:
  assumes "0 \<le> start" "start \<le> endIdx" "endIdx < int (length array)"
  shows "reorderSubArray array start endIdx f =
           (take (nat start) array @
            f (take (nat (endIdx - start + 1)) (drop (nat start) array)) @
            drop (nat (endIdx + 1)) array, [])
         \<and> take (nat (endIdx - start + 1)) (drop (nat start) array) =
             map (\<lambda>i. array ! i) [nat start ..< nat endIdx + 1]
         \<and> take (nat start) (fst (reorderSubArray array start endIdx f)) = take (nat start) array
         \<and> drop (nat start + length (f (take (nat (endIdx - start + 1)) (drop (nat start) array))))
              (fst (reorderSubArray array start endIdx f)) = drop (nat endIdx + 1) array"
proof -
  have slice: "take (nat (endIdx - start + 1)) (drop (nat start) array) =
             map (\<lambda>i. array ! i) [nat start ..< nat endIdx + 1]"
    using assms
    by (auto simp: list_eq_iff_nth_eq nat_diff_distrib nat_add_distrib simp del: upt_Suc)
  have n: "nat (endIdx + 1) = nat endIdx + 1" using assms by simp
  show ?thesis using assms slice
    by (simp add: reorderSubArray_inside n)
qed

theorem reorderSubArray_valid_range_witness:
  "reorderSubArray [10, 20, 30, 40, 50 :: nat] 1 3 rev = ([10, 40, 30, 20, 50], [])"
  using reorderSubArray_valid_range
    [where start = 1 and endIdx = 3 and array = "[10, 20, 30, 40, 50 :: nat]" and f = rev]
  by simp

text \<open>
  C9. When \<open>start < 0\<close>, \<open>end \<ge> length\<close> or \<open>start > end\<close>, the transform is not applied:
  the result is the input array, and one warning with the two indices is written to
  the console. The function returns a value in every case.
\<close>

theorem reorderSubArray_invalid_range:
  assumes "start < 0 \<or> endIdx \<ge> int (length array) \<or> start > endIdx"
  shows "reorderSubArray array start endIdx f = (array, [InvalidIndices start endIdx])"
  using assms by (simp add: reorderSubArray_def)

theorem reorderSubArray_invalid_range_witness:
  "reorderSubArray [10, 20, 30 :: nat] 2 5 rev = ([10, 20, 30], [InvalidIndices 2 5])
   \<and> reorderSubArray [10, 20, 30 :: nat] (- 1) 1 rev = ([10, 20, 30], [InvalidIndices (- 1) 1])
   \<and> reorderSubArray [10, 20, 30 :: nat] 2 1 rev = ([10, 20, 30], [InvalidIndices 2 1])"
  using reorderSubArray_invalid_range
      [where start = 2 and endIdx = 5 and array = "[10, 20, 30 :: nat]" and f = rev]
    reorderSubArray_invalid_range
      [where start = "- 1" and endIdx = 1 and array = "[10, 20, 30 :: nat]" and f = rev]
    reorderSubArray_invalid_range
      [where start = 2 and endIdx = 1 and array = "[10, 20, 30 :: nat]" and f = rev]
  by simp

section \<open>The classification rule\<close>

lemma categoriseTeam_rule:
  "categoriseTeam c =
     (if AVOID c = 0 then DOG_LOVERS else if HAVE c = 0 then DOG_HATERS else MIXED)"
  by (simp add: categoriseTeam_def)

lemma categoriseTeam_populated: "categoriseTeam c \<noteq> NO_TEAM" "NO_TEAM \<noteq> categoriseTeam c"
  by (simp_all add: categoriseTeam_rule)

lemma classifyStep_categories:
  "NO_TEAM \<notin> category ` set (teamSummaries s) \<Longrightarrow>
   NO_TEAM \<notin> category ` set (teamSummaries (classifyStep s p))"
  by (auto simp: classifyStep_def Let_def categoriseTeam_populated)

lemma foldl_classifyStep_categories:
  "NO_TEAM \<notin> category ` set (teamSummaries s) \<Longrightarrow>
   NO_TEAM \<notin> category ` set (teamSummaries (foldl classifyStep s people))"
  by (induction people arbitrary: s) (simp_all add: classifyStep_categories)

lemma closedSummaries_categories: "NO_TEAM \<notin> category ` set (closedSummaries people)"
  using foldl_classifyStep_categories [of classifierInit people]
  by (auto simp: closedSummaries_def Let_def classifierInit_def categoriseTeam_populated)

text \<open>
  C6. The category of a run with the given counters is DogLovers when nobody avoids
  dogs, otherwise DogHaters when nobody has a dog, otherwise Mixed. NoTeam is never
  the result of the rule, and no summary the classifier returns carries it.
\<close>

theorem categoriseTeam_classification:
  "categoriseTeam c =
     (if AVOID c = 0 then DOG_LOVERS else if HAVE c = 0 then DOG_HATERS else MIXED)
   \<and> categoriseTeam c \<noteq> NO_TEAM
   \<and> NO_TEAM \<notin> category ` set (sortTeamsByCategory people)"
  by (simp add: categoriseTeam_rule sortTeamsByCategory_def set_sortJS closedSummaries_categories)

section \<open>The interleave transform and the last scan keep the people\<close>

lemma mset_alternate: "mset (alternate xs ys) = mset xs + mset ys"
  by (induction xs ys rule: alternate.induct) auto

lemma length_alternate: "length (alternate xs ys) = length xs + length ys"
  by (induction xs ys rule: alternate.induct) auto

lemma findSplitFrom_bounds:
  "findSplitFrom d i ps = Some k \<Longrightarrow> i \<le> k \<and> k < i + length ps \<and> 0 < k"
  by (induction ps arbitrary: i) (fastforce split: if_splits)+

lemma splitPoint_bounds: "splitPoint sub = Some k \<Longrightarrow> 0 < k \<and> k < length sub"
  using findSplitFrom_bounds [of _ 0 sub k]
  by (auto simp: splitPoint_def split: list.splits)

lemma insertPeopleWithDogLogic_split:
  "length sub > 3 \<Longrightarrow> splitPoint sub = Some k \<Longrightarrow>
   insertPeopleWithDogLogic sub = alternate (take k sub) (drop k sub)"
  using splitPoint_bounds [of sub k]
  by (simp add: insertPeopleWithDogLogic_def sliceJS_prefix sliceFrom_valid)

lemma mset_insertPeopleWithDogLogic: "mset (insertPeopleWithDogLogic sub) = mset sub"
proof (cases "length sub > 3")
  case long: True
  show ?thesis
  proof (cases "splitPoint sub")
    case None
    then show ?thesis by (simp add: insertPeopleWithDogLogic_def)
  next
    case (Some k)
    have "mset (take k sub) + mset (drop k sub) = mset sub"
      by (metis append_take_drop_id mset_append)
    then show ?thesis
      using long Some by (simp add: insertPeopleWithDogLogic_split mset_alternate)
  qed
next
  case False
  then show ?thesis by (simp add: insertPeopleWithDogLogic_def)
qed

lemma length_insertPeopleWithDogLogic: "length (insertPeopleWithDogLogic sub) = length sub"
  using mset_insertPeopleWithDogLogic [of sub] by (metis size_mset)

lemma set_insertPeopleWithDogLogic: "set (insertPeopleWithDogLogic sub) = set sub"
  using mset_insertPeopleWithDogLogic [of sub] by (metis set_mset_mset)

lemma take_slice_drop: "take a xs @ take n (drop a xs) @ drop (a + n) xs = xs"
  by (metis add.commute append_take_drop_id drop_drop)

lemma mset_reorderSubArray:
  assumes "\<And>xs. mset (f xs) = mset xs"
  shows "mset (fst (reorderSubArray array start endIdx f)) = mset array"
proof (cases "start < 0 \<or> endIdx \<ge> int (length array) \<or> start > endIdx")
  case True
  then show ?thesis by (simp add: reorderSubArray_outside)
next
  case False
  then have v: "0 \<le> start" "start \<le> endIdx" "endIdx < int (length array)" by auto
  have e: "nat (endIdx + 1) = nat start + nat (endIdx - start + 1)" using v by linarith
  have "mset (take (nat start) array @ take (nat (endIdx - start + 1)) (drop (nat start) array) @
          drop (nat (endIdx + 1)) array) = mset array"
    by (simp only: e take_slice_drop)
  then show ?thesis
    using v assms by (simp add: reorderSubArray_inside)
qed

lemma length_reorderSubArray:
  assumes "\<And>xs. length (f xs) = length xs"
  shows "length (fst (reorderSubArray array start endIdx f)) = length array"
proof (cases "start < 0 \<or> endIdx \<ge> int (length array) \<or> start > endIdx")
  case True
  then show ?thesis by (simp add: reorderSubArray_outside)
next
  case False
  then have v: "0 \<le> start" "start \<le> endIdx" "endIdx < int (length array)" by auto
  then show ?thesis
    using assms by (simp add: reorderSubArray_inside)
qed

lemma updatedPeople_flushRun:
  "updatedPeople (flushRun s e) =
     fst (reorderSubArray (updatedPeople s) (startPointer s) e insertPeopleWithDogLogic)"
  by (simp add: flushRun_def split: prod.splits)

lemma console_flushRun:
  "console (flushRun s e) =
     console s @ snd (reorderSubArray (updatedPeople s) (startPointer s) e insertPeopleWithDogLogic)"
  by (simp add: flushRun_def split: prod.splits)

lemma flushRun_fields [simp]:
  "currTeam (flushRun s e) = currTeam s"
  "startPointer (flushRun s e) = startPointer s"
  "startSearchFlag (flushRun s e) = startSearchFlag s"
  by (simp_all add: flushRun_def split: prod.splits)

lemma mset_flushRun: "mset (updatedPeople (flushRun s e)) = mset (updatedPeople s)"
  by (simp add: updatedPeople_flushRun mset_reorderSubArray mset_insertPeopleWithDogLogic)

lemma length_flushRun: "length (updatedPeople (flushRun s e)) = length (updatedPeople s)"
  using mset_flushRun [of s e] by (metis size_mset)

lemma mset_scanStep: "mset (updatedPeople (scanStep s p i)) = mset (updatedPeople s)"
  by (simp add: scanStep_def Let_def mset_flushRun)

lemma mset_scanFrom: "mset (updatedPeople (scanFrom i ps s)) = mset (updatedPeople s)"
  by (induction ps arbitrary: i s) (simp_all add: mset_scanStep)

lemma mset_interleavingPass: "mset (updatedPeople (interleavingPass xs)) = mset xs"
  by (simp add: interleavingPass_def Let_def mset_flushRun mset_scanFrom)

text \<open>
  C1. The layout is a permutation of the input, whatever the collation: the multiset of
  people, and so the multiset of their ids, is that of the input, and the empty input
  gives the empty layout.
\<close>

theorem calculateDeskLayout_permutation:
  "mset (calculateDeskLayout localeCompare people) = mset people
   \<and> mset (map person_id (calculateDeskLayout localeCompare people)) = mset (map person_id people)
   \<and> calculateDeskLayout localeCompare [] = []"
proof -
  have m: "mset (calculateDeskLayout localeCompare people) = mset people" for people
    by (simp add: calculateDeskLayout_def mset_interleavingPass rankedPeople_def
        groupedPeople_def mset_sortJS)
  have "mset (map person_id (calculateDeskLayout localeCompare people)) =
        mset (map person_id people)"
    using m [of people] by (metis mset_map)
  moreover have "calculateDeskLayout localeCompare [] = []"
    using m [of "[]"] by simp
  ultimately show ?thesis using m by simp
qed

section \<open>The ranges of the last scan\<close>

lemma console_flushRun_valid:
  "0 \<le> startPointer s \<Longrightarrow> startPointer s \<le> e \<Longrightarrow> e < int (length (updatedPeople s)) \<Longrightarrow>
   console (flushRun s e) = console s"
  by (simp add: console_flushRun reorderSubArray_inside)

lemma scanInv_scanStep:
  assumes "scanInv index n s" "0 \<le> index" "index < int n"
  shows "scanInv (index + 1) n (scanStep s p index)"
  using assms
  by (auto simp: scanInv_def scanStep_def Let_def length_flushRun console_flushRun_valid)

lemma scanInv_scanFrom:
  assumes "scanInv index n s" "0 \<le> index" "index + int (length ps) = int n"
  shows "scanInv (int n) n (scanFrom index ps s)"
  using assms
proof (induction ps arbitrary: index s)
  case Nil
  then show ?case by simp
next
  case (Cons p ps)
  have "scanInv (index + 1) n (scanStep s p index)"
    using Cons.prems by (intro scanInv_scanStep) auto
  then show ?case
    using Cons.prems Cons.IH [of "index + 1" "scanStep s p index"] by simp
qed

lemma console_interleavingPass: "console (interleavingPass xs) = []"
proof -
  let ?s0 = "\<lparr>currTeam = None, startPointer = 0, startSearchFlag = False,
                 updatedPeople = xs, console = []\<rparr>"
  have "scanInv 0 (length xs) ?s0" by (simp add: scanInv_def)
  then have "scanInv (int (length xs)) (length xs) (scanFrom 0 xs ?s0)"
    by (intro scanInv_scanFrom) auto
  then show ?thesis
    by (auto simp: interleavingPass_def Let_def scanInv_def console_flushRun_valid)
qed

lemma reorderSubArray_console_iff:
  "snd (reorderSubArray array start endIdx f) = [] \<longleftrightarrow>
     0 \<le> start \<and> start \<le> endIdx \<and> endIdx < int (length array)"
  by (auto simp: reorderSubArray_def Let_def)

text \<open>
  C10. The helper writes a warning exactly when its range is invalid, and a call of
  \<^verbatim>\<open>calculateDeskLayout\<close> leaves the console empty: every range the last scan passes
  to the helper, in the scan and after it, satisfies \<open>0 \<le> start \<le> end < length\<close>.
\<close>

theorem calculateDeskLayout_ranges_valid:
  "calculateDeskLayoutConsole localeCompare people = []
   \<and> (\<forall>array start endIdx f.
        snd (reorderSubArray array start endIdx (f :: Person list \<Rightarrow> Person list)) = [] \<longleftrightarrow>
          0 \<le> start \<and> start \<le> endIdx \<and> endIdx < int (length array))"
  by (simp add: calculateDeskLayoutConsole_def console_interleavingPass reorderSubArray_console_iff)

section \<open>The shape of an interleaving\<close>

lemma alternate_Nil [simp]: "alternate [] ys = ys"
  by (cases ys) simp_all

lemma alternate_zip:
  "alternate xs ys =
     concat (map (\<lambda>(x, y). [x, y]) (zip xs ys)) @ drop (length ys) xs @ drop (length xs) ys"
  by (induction xs ys rule: alternate.induct) simp_all

lemma map_alternate: "map f (alternate xs ys) = alternate (map f xs) (map f ys)"
  by (induction xs ys rule: alternate.induct) simp_all

lemma map_snd_taggedAlternate: "map snd (taggedAlternate xs ys) = alternate xs ys"
  by (simp add: taggedAlternate_def map_alternate comp_def)

lemma map_fst_taggedAlternate:
  "map fst (taggedAlternate xs ys) =
     alternate (replicate (length xs) GroupA) (replicate (length ys) GroupB)"
  by (simp add: taggedAlternate_def map_alternate comp_def map_replicate_const)

lemma maxRunFrom_replicate: "maxRunFrom x n (replicate k x) = n + k"
  by (induction k arbitrary: n) simp_all

lemma maxRunFrom_alternate:
  "maxRunFrom GroupB 1 (alternate (replicate a GroupA) (replicate b GroupB)) =
     (if a > b then a - b else b - a + 1)"
proof (induction a arbitrary: b)
  case 0
  then show ?case by (simp add: maxRunFrom_replicate)
next
  case (Suc a)
  show ?case
  proof (cases b)
    case 0
    then show ?thesis by (simp add: maxRunFrom_replicate)
  next
    case (Suc b')
    then show ?thesis using Suc.IH [of b'] by simp
  qed
qed

lemma maxRun_alternate:
  assumes "0 < a" "0 < b"
  shows "maxRun (alternate (replicate a GroupA) (replicate b GroupB)) =
     (if a > b then a - b else b - a + 1)"
proof -
  obtain a' b' where ab: "a = Suc a'" "b = Suc b'"
    using assms by (metis Suc_pred)
  show ?thesis
    using maxRunFrom_alternate [of a' b'] by (simp add: ab)
qed

lemma findSplitFrom_split:
  "findSplitFrom d i ps = Some k \<Longrightarrow>
   dogStatus (ps ! (k - i)) \<noteq> d \<and> (\<forall>j. 0 < i + j \<and> i + j < k \<longrightarrow> dogStatus (ps ! j) = d)"
proof (induction ps arbitrary: i)
  case Nil
  then show ?case by simp
next
  case (Cons p ps)
  show ?case
  proof (cases "i > 0 \<and> dogStatus p \<noteq> d")
    case True
    then show ?thesis using Cons.prems by auto
  next
    case False
    then have rec: "findSplitFrom d (Suc i) ps = Some k" using Cons.prems by auto
    have b: "Suc i \<le> k" using findSplitFrom_bounds [OF rec] by simp
    have ih: "dogStatus (ps ! (k - Suc i)) \<noteq> d"
      "\<And>j. 0 < Suc i + j \<and> Suc i + j < k \<Longrightarrow> dogStatus (ps ! j) = d"
      using Cons.IH [OF rec] by auto
    have "dogStatus ((p # ps) ! j) = d" if "0 < i + j \<and> i + j < k" for j
    proof (cases j)
      case 0
      then show ?thesis using that False by auto
    next
      case (Suc j')
      then show ?thesis using that ih(2) [of j'] by simp
    qed
    moreover have "dogStatus ((p # ps) ! (k - i)) \<noteq> d"
      using ih(1) b by (simp add: Suc_diff_le)
    ultimately show ?thesis by blast
  qed
qed

lemma splitPoint_groups:
  assumes "splitPoint sub = Some k"
  shows "(\<forall>p \<in> set (take k sub). dogStatus p = dogStatus (sub ! 0))
         \<and> dogStatus (sub ! k) \<noteq> dogStatus (sub ! 0)"
proof -
  obtain q qs where sub: "sub = q # qs"
    using assms by (cases sub) (simp_all add: splitPoint_def)
  have f: "findSplitFrom (dogStatus q) 0 sub = Some k"
    using assms by (simp add: splitPoint_def sub)
  note s = findSplitFrom_split [OF f]
  have kl: "k < length sub" using splitPoint_bounds [OF assms] by simp
  have "dogStatus (sub ! j) = dogStatus q" if "j < k" for j
  proof (cases j)
    case 0
    then show ?thesis by (simp add: sub)
  next
    case (Suc j')
    then show ?thesis using s that by simp
  qed
  then have "\<forall>p \<in> set (take k sub). dogStatus p = dogStatus q"
    using kl by (auto simp: in_set_conv_nth)
  then show ?thesis using s by (simp add: sub)
qed

text \<open>
  C7, as the code has it. A slice of more than three people with a split point \<open>k\<close>
  splits into the leading block of equal dog status (the first \<open>k\<close> people) and the
  rest. The result takes one person of each group in turn while both last and then the
  rest of the longer group in its order. With \<open>a\<close> and \<open>b\<close> the sizes of the groups,
  the longest block of neighbours from one group has \<open>a - b\<close> people when \<open>a > b\<close>
  and \<open>b - a + 1\<close> people otherwise (the last pair ends with a person of the second
  group, whose rest follows).
\<close>

theorem insertPeopleWithDogLogic_interleaves:
  assumes "length sub > 3" "splitPoint sub = Some k"
  shows "(\<forall>p \<in> set (take k sub). dogStatus p = dogStatus (sub ! 0))
         \<and> dogStatus (sub ! k) \<noteq> dogStatus (sub ! 0)
         \<and> insertPeopleWithDogLogic sub =
             concat (map (\<lambda>(x, y). [x, y]) (zip (take k sub) (drop k sub))) @
             drop (length (drop k sub)) (take k sub) @ drop (length (take k sub)) (drop k sub)
         \<and> map snd (taggedAlternate (take k sub) (drop k sub)) = insertPeopleWithDogLogic sub
         \<and> maxRun (map fst (taggedAlternate (take k sub) (drop k sub))) =
             (if length (take k sub) > length (drop k sub)
              then length (take k sub) - length (drop k sub)
              else length (drop k sub) - length (take k sub) + 1)"
proof -
  have k: "0 < k" "k < length sub" using splitPoint_bounds [OF assms(2)] by auto
  have r: "insertPeopleWithDogLogic sub = alternate (take k sub) (drop k sub)"
    using assms by (rule insertPeopleWithDogLogic_split)
  have z: "insertPeopleWithDogLogic sub =
             concat (map (\<lambda>(x, y). [x, y]) (zip (take k sub) (drop k sub))) @
             drop (length (drop k sub)) (take k sub) @ drop (length (take k sub)) (drop k sub)"
    unfolding r by (rule alternate_zip)
  have m: "maxRun (map fst (taggedAlternate (take k sub) (drop k sub))) =
             (if length (take k sub) > length (drop k sub)
              then length (take k sub) - length (drop k sub)
              else length (drop k sub) - length (take k sub) + 1)"
    unfolding map_fst_taggedAlternate using k by (intro maxRun_alternate) auto
  show ?thesis
    using splitPoint_groups [OF assms(2)] z m r by (simp add: map_snd_taggedAlternate)
qed

theorem insertPeopleWithDogLogic_interleaves_witness:
  "map person_id (insertPeopleWithDogLogic shortLeadRun) = [''Alice'', ''David'', ''Eve'', ''Faye'']
   \<and> maxRun (map fst (taggedAlternate (take 1 shortLeadRun) (drop 1 shortLeadRun))) = 3"
proof -
  have l: "length shortLeadRun > 3" by (simp add: shortLeadRun_def)
  have s: "splitPoint shortLeadRun = Some 1"
    by (simp add: shortLeadRun_def splitPoint_def person_def)
  show ?thesis
    using insertPeopleWithDogLogic_interleaves [OF l s]
    by (simp add: shortLeadRun_def person_def)
qed

text \<open>
  With two people in each group the result alternates throughout: its longest block
  from one group has one person, while \<open>|a - b|\<close> is zero.
\<close>

theorem interleave_max_run_counterexample:
  "length evenRun > 3 \<and> splitPoint evenRun = Some 2
   \<and> map person_id (insertPeopleWithDogLogic evenRun) = [''Alice'', ''David'', ''Bob'', ''Eve'']
   \<and> maxRun (map fst (taggedAlternate (take 2 evenRun) (drop 2 evenRun))) = 1
   \<and> nat \<bar>int (length (take 2 evenRun)) - int (length (drop 2 evenRun))\<bar> = 0
   \<and> maxRun (map fst (taggedAlternate (take 2 evenRun) (drop 2 evenRun))) \<noteq>
       nat \<bar>int (length (take 2 evenRun)) - int (length (drop 2 evenRun))\<bar>"
  by code_simp

section \<open>The sort is sorted and stable\<close>

lemma sorted_insertBy:
  assumes tot: "\<And>a b. a \<in> S \<Longrightarrow> b \<in> S \<Longrightarrow> cmp a b \<le> 0 \<or> cmp b a \<le> 0"
    and trans: "\<And>a b c. a \<in> S \<Longrightarrow> b \<in> S \<Longrightarrow> c \<in> S \<Longrightarrow>
                  cmp a b \<le> 0 \<Longrightarrow> cmp b c \<le> 0 \<Longrightarrow> cmp a c \<le> 0"
    and "x \<in> S" "set xs \<subseteq> S" "sorted_wrt (\<lambda>a b. cmp a b \<le> 0) xs"
  shows "sorted_wrt (\<lambda>a b. cmp a b \<le> 0) (insertBy cmp x xs)"
  using assms(3-)
proof (induction xs)
  case Nil
  then show ?case by simp
next
  case (Cons y ys)
  show ?case
  proof (cases "cmp x y \<le> 0")
    case True
    have "cmp x z \<le> 0" if "z \<in> set ys" for z
      using trans [of x y z] True Cons.prems that by auto
    then show ?thesis using True Cons.prems by simp
  next
    case False
    then have "cmp y x \<le> 0" using tot [of x y] Cons.prems by auto
    moreover have "set (insertBy cmp x ys) = insert x (set ys)"
      using mset_insertBy [of cmp x ys] by (metis set_mset_mset set_mset_add_mset_insert)
    ultimately show ?thesis using False Cons by simp
  qed
qed

lemma sorted_sortJS:
  assumes tot: "\<And>a b. a \<in> set xs \<Longrightarrow> b \<in> set xs \<Longrightarrow> cmp a b \<le> 0 \<or> cmp b a \<le> 0"
    and trans: "\<And>a b c. a \<in> set xs \<Longrightarrow> b \<in> set xs \<Longrightarrow> c \<in> set xs \<Longrightarrow>
                  cmp a b \<le> 0 \<Longrightarrow> cmp b c \<le> 0 \<Longrightarrow> cmp a c \<le> 0"
  shows "sorted_wrt (\<lambda>a b. cmp a b \<le> 0) (sortJS cmp xs)"
proof -
  have "sorted_wrt (\<lambda>a b. cmp a b \<le> 0) (sortJS cmp ys)" if "set ys \<subseteq> set xs" for ys
    using that
  proof (induction ys)
    case Nil
    then show ?case by (simp add: sortJS_def)
  next
    case (Cons y ys)
    have "sorted_wrt (\<lambda>a b. cmp a b \<le> 0) (insertBy cmp y (sortJS cmp ys))"
    proof (rule sorted_insertBy [where S = "set xs"])
      show "set (sortJS cmp ys) \<subseteq> set xs" using Cons.prems by (simp add: set_sortJS)
      show "y \<in> set xs" using Cons.prems by simp
      show "sorted_wrt (\<lambda>a b. cmp a b \<le> 0) (sortJS cmp ys)" using Cons by simp
      show "cmp a b \<le> 0 \<or> cmp b a \<le> 0" if "a \<in> set xs" "b \<in> set xs" for a b
        using that by (rule tot)
      show "cmp a c \<le> 0"
        if "a \<in> set xs" "b \<in> set xs" "c \<in> set xs" "cmp a b \<le> 0" "cmp b c \<le> 0" for a b c
        using that by (rule trans)
    qed
    then show ?case by (simp add: sortJS_def)
  qed
  then show ?thesis by simp
qed

lemma filter_insertBy_key:
  assumes "\<And>a b. cmp a b \<le> 0 \<longleftrightarrow> key a \<le> (key b :: int)"
  shows "filter (\<lambda>y. key y = c) (insertBy cmp x xs) =
           (if key x = c then x # filter (\<lambda>y. key y = c) xs else filter (\<lambda>y. key y = c) xs)"
  by (induction xs) (auto simp: assms)

lemma filter_sortJS_key:
  assumes "\<And>a b. cmp a b \<le> 0 \<longleftrightarrow> key a \<le> (key b :: int)"
  shows "filter (\<lambda>y. key y = c) (sortJS cmp xs) = filter (\<lambda>y. key y = c) xs"
proof (induction xs)
  case Nil
  then show ?case by (simp add: sortJS_def)
next
  case (Cons x xs)
  have "sortJS cmp (x # xs) = insertBy cmp x (sortJS cmp xs)" by (simp add: sortJS_def)
  then show ?case using Cons by (simp add: filter_insertBy_key [OF assms])
qed

lemma byCategory_key:
  "byCategory a b \<le> 0 \<longleftrightarrow> categoryOrdinal (category a) \<le> categoryOrdinal (category b)"
  by (simp add: byCategory_def)

lemma categoryOrdinal_inj: "categoryOrdinal a = categoryOrdinal b \<longleftrightarrow> a = b"
  by (cases a; cases b) simp_all

lemma sorted_sortTeamsByCategory:
  "sorted (map (\<lambda>s. categoryOrdinal (category s)) (sortTeamsByCategory people))"
proof -
  have "sorted_wrt (\<lambda>a b. byCategory a b \<le> 0) (sortJS byCategory (closedSummaries people))"
    by (rule sorted_sortJS) (auto simp: byCategory_key)
  then show ?thesis
    by (simp add: sortTeamsByCategory_def sorted_map byCategory_key)
qed

lemma stable_sortTeamsByCategory:
  "filter (\<lambda>s. category s = c) (sortTeamsByCategory people) =
   filter (\<lambda>s. category s = c) (closedSummaries people)"
  using filter_sortJS_key [of byCategory "\<lambda>s. categoryOrdinal (category s)" "categoryOrdinal c"
      "closedSummaries people", OF byCategory_key]
  by (simp add: sortTeamsByCategory_def categoryOrdinal_inj)

section \<open>The classifier and the team runs\<close>

lemma teamRuns_same_team:
  assumes "pre \<noteq> []" "\<forall>q \<in> set pre. teamIdOf q = k"
  shows "teamRuns pre = [pre]"
    and "teamIdOf p \<noteq> k \<Longrightarrow> teamRuns (pre @ p # ps) = pre # teamRuns (p # ps)"
proof -
  obtain q qs where pre: "pre = q # qs" using assms(1) by (cases pre) auto
  have same: "\<forall>x \<in> set qs. teamIdOf x = teamIdOf q" using assms(2) by (simp add: pre)
  then have t: "takeWhile (\<lambda>x. teamIdOf x = teamIdOf q) qs = qs"
    and d: "dropWhile (\<lambda>x. teamIdOf x = teamIdOf q) qs = []" by auto
  show "teamRuns pre = [pre]" by (simp add: pre t d)
  show "teamRuns (pre @ p # ps) = pre # teamRuns (p # ps)" if "teamIdOf p \<noteq> k"
  proof -
    have qk: "teamIdOf q = k" using assms(2) by (simp add: pre)
    have "takeWhile (\<lambda>x. teamIdOf x = teamIdOf q) (qs @ p # ps) = qs"
      using same that qk by (simp add: takeWhile_append2 del: teamRuns.simps)
    moreover have "dropWhile (\<lambda>x. teamIdOf x = teamIdOf q) (qs @ p # ps) = p # ps"
      using same that qk by (simp add: dropWhile_append2 del: teamRuns.simps)
    ultimately show ?thesis by (simp add: pre del: teamRuns.simps(2)) (simp add: teamRuns.simps(2) [of q])
  qed
qed

lemma countRun_snoc: "countRun (pre @ [p]) = countStatus (dogStatus p) (countRun pre)"
  by (cases "dogStatus p") (simp_all add: countRun_def)

lemma countRun_single: "countRun [p] = countStatus (dogStatus p) zeroCount"
  by (cases "dogStatus p") (simp_all add: countRun_def zeroCount_def)

lemma runTeamId_same_team: "pre \<noteq> [] \<Longrightarrow> \<forall>q \<in> set pre. teamIdOf q = k \<Longrightarrow> runTeamId pre = k"
  by (cases pre) (simp_all add: runTeamId_def)

lemma teamRuns_nonempty: "ps \<noteq> [] \<Longrightarrow> teamRuns ps \<noteq> []"
  by (cases ps) simp_all

lemma classify_runs:
  assumes "pre \<noteq> []" "\<forall>q \<in> set pre. teamIdOf q = k"
    and "teamId (currSummary s) = k" "teamDogStatusCount s = countRun pre"
    and "list_all (\<lambda>run. truthy (runTeamId run)) (butlast (teamRuns (pre @ ps)))"
  shows "teamSummaries (foldl classifyStep s ps) @
           [(currSummary (foldl classifyStep s ps))
              \<lparr>category := categoriseTeam (teamDogStatusCount (foldl classifyStep s ps))\<rparr>] =
         teamSummaries s @ map summariseRun (teamRuns (pre @ ps))"
  using assms
proof (induction ps arbitrary: pre k s)
  case Nil
  have "(currSummary s)\<lparr>category := categoriseTeam (countRun pre)\<rparr> = summariseRun pre"
    using Nil.prems runTeamId_same_team [of pre k] by (simp add: summariseRun_def)
  then show ?case using Nil.prems teamRuns_same_team(1) [of pre k] by simp
next
  case (Cons p ps)
  show ?case
  proof (cases "teamIdOf p = k")
    case True
    let ?s = "classifyStep s p"
    have s: "teamId (currSummary ?s) = k" "teamDogStatusCount ?s = countRun (pre @ [p])"
      "teamSummaries ?s = teamSummaries s"
      using True Cons.prems by (simp_all add: classifyStep_def Let_def countRun_snoc)
    have "teamSummaries (foldl classifyStep ?s ps) @
           [(currSummary (foldl classifyStep ?s ps))
              \<lparr>category := categoriseTeam (teamDogStatusCount (foldl classifyStep ?s ps))\<rparr>] =
         teamSummaries ?s @ map summariseRun (teamRuns ((pre @ [p]) @ ps))"
      using Cons.prems True s by (intro Cons.IH [where k = k]) auto
    then show ?thesis by (simp add: s)
  next
    case False
    let ?s = "classifyStep s p"
    have runs: "teamRuns (pre @ p # ps) = pre # teamRuns (p # ps)"
      using teamRuns_same_team(2) [of pre k p ps] Cons.prems False by simp
    have ne: "teamRuns (p # ps) \<noteq> []" by (rule teamRuns_nonempty) simp
    have tr: "truthy k" and rest: "list_all (\<lambda>run. truthy (runTeamId run)) (butlast (teamRuns (p # ps)))"
      using Cons.prems(5) ne runTeamId_same_team [of pre k] Cons.prems(1,2)
      by (simp_all add: runs del: teamRuns.simps)
    have s: "teamId (currSummary ?s) = teamIdOf p" "teamDogStatusCount ?s = countRun [p]"
      "teamSummaries ?s = teamSummaries s @ [summariseRun pre]"
      using False tr Cons.prems runTeamId_same_team [of pre k]
      by (simp_all add: classifyStep_def Let_def countRun_single summariseRun_def)
    have "teamSummaries (foldl classifyStep ?s ps) @
           [(currSummary (foldl classifyStep ?s ps))
              \<lparr>category := categoriseTeam (teamDogStatusCount (foldl classifyStep ?s ps))\<rparr>] =
         teamSummaries ?s @ map summariseRun (teamRuns ([p] @ ps))"
      using s rest by (intro Cons.IH [where k = "teamIdOf p"]) (simp_all del: teamRuns.simps)
    then show ?thesis by (simp add: s runs del: teamRuns.simps)
  qed
qed

lemma closedSummaries_runs:
  assumes "people \<noteq> []" "list_all (\<lambda>run. truthy (runTeamId run)) (butlast (teamRuns people))"
  shows "closedSummaries people = map summariseRun (teamRuns people)"
proof -
  obtain p ps where people: "people = p # ps" using assms(1) by (cases people) auto
  let ?s = "classifyStep classifierInit p"
  have s: "teamId (currSummary ?s) = teamIdOf p" "teamDogStatusCount ?s = countRun [p]"
    "teamSummaries ?s = []"
    by (simp_all add: classifyStep_def classifierInit_def Let_def countRun_single)
  have "teamSummaries (foldl classifyStep ?s ps) @
           [(currSummary (foldl classifyStep ?s ps))
              \<lparr>category := categoriseTeam (teamDogStatusCount (foldl classifyStep ?s ps))\<rparr>] =
         teamSummaries ?s @ map summariseRun (teamRuns ([p] @ ps))"
    using s assms(2) by (intro classify_runs [where k = "teamIdOf p"]) (simp_all add: people del: teamRuns.simps)
  then show ?thesis by (simp add: closedSummaries_def Let_def people s del: teamRuns.simps)
qed

text \<open>
  C5, as the code has it. For a non-empty sequence in which every team run but the last
  has a non-empty team id, the classifier returns one summary for each contiguous team
  run: the team id of the run with the category of the counts of that run alone. The
  summaries are returned in ascending order of category ordinal, and the summaries of
  one category in the order of their runs.
\<close>

theorem sortTeamsByCategory_runs:
  assumes "people \<noteq> []" "list_all (\<lambda>run. truthy (runTeamId run)) (butlast (teamRuns people))"
  shows "mset (sortTeamsByCategory people) = mset (map summariseRun (teamRuns people))
         \<and> length (sortTeamsByCategory people) = length (teamRuns people)
         \<and> sorted (map (\<lambda>s. categoryOrdinal (category s)) (sortTeamsByCategory people))
         \<and> (\<forall>c. filter (\<lambda>s. category s = c) (sortTeamsByCategory people) =
                 filter (\<lambda>s. category s = c) (map summariseRun (teamRuns people)))"
  using closedSummaries_runs [OF assms] sorted_sortTeamsByCategory [of people]
    stable_sortTeamsByCategory [of _ people]
  by (simp add: sortTeamsByCategory_def mset_sortJS length_sortJS)

theorem sortTeamsByCategory_runs_witness:
  "sortTeamsByCategory threeRunsGrouped =
     [\<lparr>teamId = Some ''b'', category = DOG_HATERS\<rparr>,
      \<lparr>teamId = Some ''a'', category = DOG_LOVERS\<rparr>,
      \<lparr>teamId = None, category = DOG_LOVERS\<rparr>]
   \<and> map summariseRun (teamRuns threeRunsGrouped) =
     [\<lparr>teamId = Some ''a'', category = DOG_LOVERS\<rparr>,
      \<lparr>teamId = Some ''b'', category = DOG_HATERS\<rparr>,
      \<lparr>teamId = None, category = DOG_LOVERS\<rparr>]"
proof -
  have ne: "threeRunsGrouped \<noteq> []" by (simp add: threeRunsGrouped_def)
  have runs: "teamRuns threeRunsGrouped =
      [[person ''Ann'' (Some ''a'') Like, person ''Amy'' (Some ''a'') Like],
       [person ''Ben'' (Some ''b'') Avoid], [person ''Ned'' None Have]]"
    by (simp add: threeRunsGrouped_def person_def teamIdOf_def)
  have tr: "list_all (\<lambda>run. truthy (runTeamId run)) (butlast (teamRuns threeRunsGrouped))"
    by (simp add: runs runTeamId_def person_def teamIdOf_def)
  have "sortTeamsByCategory threeRunsGrouped =
     [\<lparr>teamId = Some ''b'', category = DOG_HATERS\<rparr>,
      \<lparr>teamId = Some ''a'', category = DOG_LOVERS\<rparr>,
      \<lparr>teamId = None, category = DOG_LOVERS\<rparr>]"
    by code_simp
  moreover have "map summariseRun (teamRuns threeRunsGrouped) =
     [\<lparr>teamId = Some ''a'', category = DOG_LOVERS\<rparr>,
      \<lparr>teamId = Some ''b'', category = DOG_HATERS\<rparr>,
      \<lparr>teamId = None, category = DOG_LOVERS\<rparr>]"
    by code_simp
  ultimately show ?thesis using sortTeamsByCategory_runs [OF ne tr] by simp
qed

text \<open>
  Outside these hypotheses: a teamless run that is not the last one is not closed.
  When the next team begins, the summary under construction is replaced and the
  counters are kept, so Ned's Avoid makes team b Mixed. On the empty input the
  classifier returns one summary although there is no run.
\<close>

lemma classifier_merges_leading_teamless_run:
  "map runTeamId (teamRuns teamlessFirstGrouped) = [None, Some ''b'']
   \<and> sortTeamsByCategory teamlessFirstGrouped = [\<lparr>teamId = Some ''b'', category = MIXED\<rparr>]
   \<and> sortTeamsByCategory [] = [\<lparr>teamId = None, category = DOG_LOVERS\<rparr>]"
  by code_simp

text \<open>
  The runs of team a (DogLovers) and team b (DogHaters) occur in this order; the
  classifier returns the summary of b before that of a.
\<close>

theorem sortTeamsByCategory_order_counterexample:
  "map runTeamId (teamRuns twoTeamsGrouped) = [Some ''a'', Some ''b'']
   \<and> sortTeamsByCategory twoTeamsGrouped =
       [\<lparr>teamId = Some ''b'', category = DOG_HATERS\<rparr>, \<lparr>teamId = Some ''a'', category = DOG_LOVERS\<rparr>]
   \<and> map teamId (sortTeamsByCategory twoTeamsGrouped) \<noteq> map runTeamId (teamRuns twoTeamsGrouped)"
  by code_simp

section \<open>Every team with a valid id is in the rank map\<close>

lemma classifyStep_current: "teamId (currSummary (classifyStep s p)) = teamIdOf p"
  by (simp add: classifyStep_def Let_def)

lemma classifyStep_keeps:
  assumes "truthy k" "k \<in> teamId ` set (teamSummaries s) \<or> k = teamId (currSummary s)"
  shows "k \<in> teamId ` set (teamSummaries (classifyStep s p)) \<or>
         k = teamId (currSummary (classifyStep s p))"
  using assms by (auto simp: classifyStep_def Let_def)

lemma foldl_classifyStep_keeps:
  assumes "truthy k" "k \<in> teamId ` set (teamSummaries s) \<or> k = teamId (currSummary s)"
  shows "k \<in> teamId ` set (teamSummaries (foldl classifyStep s ps)) \<or>
         k = teamId (currSummary (foldl classifyStep s ps))"
  using assms
proof (induction ps arbitrary: s)
  case Nil
  then show ?case by simp
next
  case (Cons p ps)
  show ?case
    using Cons.IH [OF Cons.prems(1) classifyStep_keeps [OF Cons.prems, of p]] by simp
qed

lemma foldl_classifyStep_covers:
  assumes "p \<in> set ps" "truthy (teamIdOf p)"
  shows "teamIdOf p \<in> teamId ` set (teamSummaries (foldl classifyStep s ps)) \<or>
         teamIdOf p = teamId (currSummary (foldl classifyStep s ps))"
  using assms
proof (induction ps arbitrary: s)
  case Nil
  then show ?case by simp
next
  case (Cons q ps)
  show ?case
  proof (cases "p = q")
    case True
    have "teamIdOf p = teamId (currSummary (classifyStep s q))"
      by (simp add: True classifyStep_current)
    then show ?thesis
      using foldl_classifyStep_keeps [OF Cons.prems(2), of "classifyStep s q" ps] by simp
  next
    case False
    then show ?thesis using Cons by simp
  qed
qed

lemma closedSummaries_covers:
  assumes "p \<in> set people" "truthy (teamIdOf p)"
  shows "teamIdOf p \<in> teamId ` set (closedSummaries people)"
  using foldl_classifyStep_covers [OF assms, of classifierInit]
  by (auto simp: closedSummaries_def Let_def)

lemma sortTeamsByCategory_covers:
  assumes "p \<in> set people" "truthy (teamIdOf p)"
  shows "teamIdOf p \<in> teamId ` set (sortTeamsByCategory people)"
  using closedSummaries_covers [OF assms] by (simp add: sortTeamsByCategory_def set_sortJS)

lemma categoryOrdinal_range: "0 \<le> categoryOrdinal c \<and> categoryOrdinal c \<le> 3"
  by (cases c) simp_all

lemma foldl_rank_dom:
  "foldl (\<lambda>m tp. m(summaryKey (teamId tp) \<mapsto> categoryOrdinal (category tp))) m xs k \<noteq> None \<longleftrightarrow>
     m k \<noteq> None \<or> k \<in> summaryKey ` teamId ` set xs"
  by (induction xs arbitrary: m) auto

lemma foldl_rank_range:
  assumes "\<And>k r. m k = Some r \<Longrightarrow> 0 \<le> r \<and> r \<le> 3"
    and "foldl (\<lambda>m tp. m(summaryKey (teamId tp) \<mapsto> categoryOrdinal (category tp))) m xs k = Some r"
  shows "0 \<le> r \<and> r \<le> 3"
  using assms
proof (induction xs arbitrary: m)
  case Nil
  then show ?case by simp
next
  case (Cons x xs)
  let ?m = "m(summaryKey (teamId x) \<mapsto> categoryOrdinal (category x))"
  have "0 \<le> r' \<and> r' \<le> 3" if "?m k' = Some r'" for k' r'
    using that Cons.prems(1) [of k' r'] categoryOrdinal_range [of "category x"]
    by (auto split: if_splits)
  then show ?case using Cons.IH [of ?m] Cons.prems(2) by simp
qed

lemma summaryKey_defined: "summaryKey k \<noteq> KeyUndefined" "KeyUndefined \<noteq> summaryKey k"
  by (cases k; simp)+

lemma summaryKey_string: "KeyString t = summaryKey k \<longleftrightarrow> k = Some t"
  by (cases k) auto

lemma buildTeamRankMap_undefined: "buildTeamRankMap summaries KeyUndefined = None"
  using foldl_rank_dom [of Map.empty summaries KeyUndefined]
  by (auto simp: buildTeamRankMap_def summaryKey_defined)

lemma buildTeamRankMap_string:
  "buildTeamRankMap summaries (KeyString t) \<noteq> None \<longleftrightarrow> Some t \<in> teamId ` set summaries"
proof -
  have "KeyString t \<in> summaryKey ` teamId ` set summaries \<longleftrightarrow> Some t \<in> teamId ` set summaries"
    by (force simp: summaryKey_string image_iff)
  then show ?thesis
    using foldl_rank_dom [of Map.empty summaries "KeyString t"] by (simp add: buildTeamRankMap_def)
qed

lemma buildTeamRankMap_range:
  "buildTeamRankMap summaries k = Some r \<Longrightarrow> 0 \<le> r \<and> r \<le> 3"
  unfolding buildTeamRankMap_def by (rule foldl_rank_range [of Map.empty]) simp_all

lemma rankOf_teamless:
  "team p = None \<Longrightarrow> rankOf (buildTeamRankMap summaries) p = MAX_SAFE_INTEGER"
  by (simp add: rankOf_def teamIdOf_def buildTeamRankMap_undefined)

lemma rankOf_teamed:
  assumes "p \<in> set grouped" "teamIdOf p = Some t" "t \<noteq> []"
  shows "0 \<le> rankOf (buildTeamRankMap (sortTeamsByCategory grouped)) p
         \<and> rankOf (buildTeamRankMap (sortTeamsByCategory grouped)) p \<le> 3"
proof -
  have "Some t \<in> teamId ` set (sortTeamsByCategory grouped)"
    using sortTeamsByCategory_covers [of p grouped] assms by simp
  then obtain r where r: "buildTeamRankMap (sortTeamsByCategory grouped) (KeyString t) = Some r"
    using buildTeamRankMap_string [of "sortTeamsByCategory grouped" t] by auto
  then show ?thesis
    using buildTeamRankMap_range [OF r] by (simp add: rankOf_def assms(2))
qed

section \<open>The second sort orders the people by rank\<close>

lemma validTeamIds_iff: "validTeamIds xs \<longleftrightarrow> (\<forall>p \<in> set xs. teamIdOf p \<noteq> Some [])"
  by (simp add: validTeamIds_def list_all_iff)

lemma rank_of_member:
  assumes "validTeamIds grouped" "p \<in> set grouped"
  shows "(team p = None \<longrightarrow>
            rankOf (buildTeamRankMap (sortTeamsByCategory grouped)) p = MAX_SAFE_INTEGER)
         \<and> (team p \<noteq> None \<longrightarrow>
            rankOf (buildTeamRankMap (sortTeamsByCategory grouped)) p \<le> 3)"
proof (cases "team p")
  case None
  then show ?thesis by (simp add: rankOf_teamless)
next
  case (Some t)
  then have t: "teamIdOf p = Some (team_id t)" by (simp add: teamIdOf_def)
  then have "team_id t \<noteq> []" using assms by (auto simp: validTeamIds_iff)
  then show ?thesis using rankOf_teamed [OF assms(2) t] Some by simp
qed

text \<open>
  A comparator that never contradicts a key sorts by that key, whatever else it
  compares when the keys are equal.
\<close>

lemma set_insertBy: "set (insertBy cmp x xs) = insert x (set xs)"
  using mset_insertBy [of cmp x xs] by (metis set_mset_mset set_mset_add_mset_insert)

lemma sorted_key_insertBy:
  assumes le: "\<And>a b. cmp a b \<le> 0 \<Longrightarrow> key a \<le> (key b :: int)"
    and ge: "\<And>a b. \<not> cmp a b \<le> 0 \<Longrightarrow> key b \<le> key a"
    and "sorted (map key xs)"
  shows "sorted (map key (insertBy cmp x xs))"
  using assms(3)
proof (induction xs)
  case Nil
  then show ?case by simp
next
  case (Cons y ys)
  show ?case
  proof (cases "cmp x y \<le> 0")
    case True
    have "key x \<le> key y" using True by (rule le)
    then have "key x \<le> key z" if "z \<in> set ys" for z
      using Cons.prems that by fastforce
    then show ?thesis using True Cons.prems \<open>key x \<le> key y\<close> by simp
  next
    case False
    then have "key y \<le> key x" by (rule ge)
    then show ?thesis using False Cons by (simp add: set_insertBy)
  qed
qed

lemma sorted_key_sortJS:
  assumes "\<And>a b. cmp a b \<le> 0 \<Longrightarrow> key a \<le> (key b :: int)"
    and "\<And>a b. \<not> cmp a b \<le> 0 \<Longrightarrow> key b \<le> key a"
  shows "sorted (map key (sortJS cmp xs))"
proof (induction xs)
  case Nil
  then show ?case by (simp add: sortJS_def)
next
  case (Cons x xs)
  have "sorted (map key (insertBy cmp x (sortJS cmp xs)))"
    using assms Cons by (rule sorted_key_insertBy)
  then show ?case by (simp add: sortJS_def)
qed

lemma byTeamRank_rank:
  "byTeamRank localeCompare m a b \<le> 0 \<Longrightarrow> rankOf m a \<le> rankOf m b"
  "\<not> byTeamRank localeCompare m a b \<le> 0 \<Longrightarrow> rankOf m b \<le> rankOf m a"
  by (auto simp: byTeamRank_def Let_def split: if_splits)

lemma sorted_rank_rankedPeople:
  "sorted (map (rankOf (buildTeamRankMap (sortTeamsByCategory grouped)))
             (rankedPeople localeCompare grouped))"
  unfolding rankedPeople_def
proof (rule sorted_key_sortJS)
  fix a b
  assume "byTeamRank localeCompare (buildTeamRankMap (sortTeamsByCategory grouped)) a b \<le> 0"
  then show "rankOf (buildTeamRankMap (sortTeamsByCategory grouped)) a \<le>
             rankOf (buildTeamRankMap (sortTeamsByCategory grouped)) b"
    by (rule byTeamRank_rank(1))
next
  fix a b
  assume "\<not> byTeamRank localeCompare (buildTeamRankMap (sortTeamsByCategory grouped)) a b \<le> 0"
  then show "rankOf (buildTeamRankMap (sortTeamsByCategory grouped)) b \<le>
             rankOf (buildTeamRankMap (sortTeamsByCategory grouped)) a"
    by (rule byTeamRank_rank(2))
qed

lemma set_rankedPeople: "set (rankedPeople localeCompare grouped) = set grouped"
  by (simp add: rankedPeople_def set_sortJS)

lemma rankedPeople_teamless_suffix:
  assumes v: "validTeamIds grouped"
    and ij: "i < j" "j < length (rankedPeople localeCompare grouped)"
    and ti: "team (rankedPeople localeCompare grouped ! i) = None"
  shows "team (rankedPeople localeCompare grouped ! j) = None"
proof (rule ccontr)
  let ?m = "buildTeamRankMap (sortTeamsByCategory grouped)"
  let ?xs = "rankedPeople localeCompare grouped"
  assume tj: "team (?xs ! j) \<noteq> None"
  have mem: "?xs ! i \<in> set grouped" "?xs ! j \<in> set grouped"
    using ij set_rankedPeople [of localeCompare grouped] nth_mem [of i ?xs] nth_mem [of j ?xs]
    by auto
  have "map (rankOf ?m) ?xs ! i \<le> map (rankOf ?m) ?xs ! j"
    using sorted_rank_rankedPeople [of grouped localeCompare] ij
    by (intro sorted_nth_mono) simp_all
  then have "rankOf ?m (?xs ! i) \<le> rankOf ?m (?xs ! j)" using ij by simp
  moreover have "rankOf ?m (?xs ! i) = MAX_SAFE_INTEGER"
    using rank_of_member [OF v mem(1)] ti by simp
  moreover have "rankOf ?m (?xs ! j) \<le> 3"
    using rank_of_member [OF v mem(2)] tj by simp
  ultimately show False by (simp add: MAX_SAFE_INTEGER_def)
qed

section \<open>The last scan keeps every team id in place\<close>

lemma map_constant: "\<forall>x \<in> set ys. g x = c \<Longrightarrow> map g ys = replicate (length ys) c"
  by (induction ys) auto

lemma map_teamIdOf_reorderSubArray:
  assumes "\<forall>j. nat sp \<le> j \<and> j \<le> nat e \<and> j < length arr \<longrightarrow> teamIdOf (arr ! j) = c"
  shows "map teamIdOf (fst (reorderSubArray arr sp e insertPeopleWithDogLogic)) = map teamIdOf arr"
proof (cases "sp < 0 \<or> e \<ge> int (length arr) \<or> sp > e")
  case True
  then show ?thesis by (simp add: reorderSubArray_outside)
next
  case False
  then have v: "0 \<le> sp" "sp \<le> e" "e < int (length arr)" by auto
  let ?n = "nat (e - sp + 1)"
  let ?slice = "take ?n (drop (nat sp) arr)"
  have n: "nat (e + 1) = nat sp + ?n" using v by linarith
  have "teamIdOf x = c" if xin: "x \<in> set ?slice" for x
  proof -
    have "nat sp \<le> length arr" using v by simp
    then obtain k where k: "k < ?n" "nat sp + k < length arr" "x = arr ! (nat sp + k)"
      using xin by (auto simp: in_set_conv_nth)
    moreover have "nat sp + k \<le> nat e" using k(1) v by linarith
    ultimately show ?thesis using assms by simp
  qed
  then have c: "\<forall>x \<in> set ?slice. teamIdOf x = c" by blast
  then have "\<forall>x \<in> set (insertPeopleWithDogLogic ?slice). teamIdOf x = c"
    by (simp add: set_insertPeopleWithDogLogic)
  then have "map teamIdOf (insertPeopleWithDogLogic ?slice) = map teamIdOf ?slice"
    using map_constant [of "insertPeopleWithDogLogic ?slice" teamIdOf c] map_constant [OF c]
    by (simp add: length_insertPeopleWithDogLogic)
  then have "map teamIdOf (fst (reorderSubArray arr sp e insertPeopleWithDogLogic)) =
        map teamIdOf (take (nat sp) arr @ ?slice @ drop (nat sp + ?n) arr)"
    using v by (simp add: reorderSubArray_inside n)
  then show ?thesis by (simp only: take_slice_drop)
qed

lemma teamRunInv_scanStep:
  assumes valid: "\<forall>p \<in> set xs. teamIdOf p \<noteq> Some []"
    and suffix: "\<forall>i j. i < j \<and> j < length xs \<and> team (xs ! i) = None \<longrightarrow> team (xs ! j) = None"
    and inv: "teamRunInv xs i s" and i: "i < length xs"
  shows "teamRunInv xs (Suc i) (scanStep s (xs ! i) (int i))"
proof (cases "startSearchFlag s")
  case False
  then show ?thesis
    using inv by (auto simp: teamRunInv_def scanStep_def Let_def less_Suc_eq)
next
  case True
  let ?p = "xs ! i"
  let ?sp = "startPointer s"
  have sp: "0 \<le> ?sp" "?sp < int i"
    and run: "\<And>j. nat ?sp \<le> j \<Longrightarrow> j < i \<Longrightarrow> teamIdOf (xs ! j) = currTeam s"
    and ids: "map teamIdOf (updatedPeople s) = map teamIdOf xs"
    using inv True by (auto simp: teamRunInv_def)
  have first: "teamIdOf (xs ! nat ?sp) = currTeam s" using run [of "nat ?sp"] sp by simp
  have spl: "nat ?sp < length xs" using sp i by simp
  have cur: "\<not> truthy (currTeam s) \<Longrightarrow> teamIdOf ?p = currTeam s"
  proof -
    assume "\<not> truthy (currTeam s)"
    moreover have "currTeam s \<noteq> Some []"
      using valid first nth_mem [OF spl] by metis
    ultimately have none: "currTeam s = None" by (cases "currTeam s") auto
    then have "team (xs ! nat ?sp) = None" using first by (simp add: teamIdOf_def)
    then have "team ?p = None" using suffix sp i by (metis nat_less_iff)
    then show ?thesis by (simp add: none teamIdOf_def)
  qed
  let ?s1 = "if \<not> truthy (currTeam s) then s\<lparr>currTeam := teamIdOf ?p\<rparr> else s"
  have s1: "?s1 = s" using cur by (cases "truthy (currTeam s)") simp_all
  show ?thesis
  proof (cases "teamIdOf ?p \<noteq> currTeam s \<or> (teamIdOf ?p = currTeam s \<and> dogStatus ?p = Avoid)")
    case flush: True
    have same: "\<forall>j. nat ?sp \<le> j \<and> j \<le> nat (int i - 1) \<and> j < length (updatedPeople s) \<longrightarrow>
                  teamIdOf (updatedPeople s ! j) = currTeam s"
    proof (intro allI impI)
      fix j
      assume j: "nat ?sp \<le> j \<and> j \<le> nat (int i - 1) \<and> j < length (updatedPeople s)"
      then have "j < i" using sp by linarith
      moreover have "teamIdOf (updatedPeople s ! j) = teamIdOf (xs ! j)"
        using ids j by (metis length_map nth_map)
      ultimately show "teamIdOf (updatedPeople s ! j) = currTeam s" using run j by simp
    qed
    have kept: "map teamIdOf (updatedPeople (flushRun s (int i - 1))) = map teamIdOf xs"
      using map_teamIdOf_reorderSubArray [OF same] ids by (simp add: updatedPeople_flushRun)
    show ?thesis
      unfolding scanStep_def Let_def s1
      using flush True kept by (auto simp: teamRunInv_def less_Suc_eq)
  next
    case False
    then have "teamIdOf ?p = currTeam s" by auto
    then have "\<And>j. nat ?sp \<le> j \<Longrightarrow> j < Suc i \<Longrightarrow> teamIdOf (xs ! j) = currTeam s"
      using run by (auto simp: less_Suc_eq)
    then show ?thesis
      unfolding scanStep_def Let_def s1
      using False True sp ids by (auto simp: teamRunInv_def)
  qed
qed

lemma teamRunInv_scanFrom:
  assumes valid: "\<forall>p \<in> set xs. teamIdOf p \<noteq> Some []"
    and suffix: "\<forall>i j. i < j \<and> j < length xs \<and> team (xs ! i) = None \<longrightarrow> team (xs ! j) = None"
  shows "teamRunInv xs i s \<Longrightarrow> i \<le> length xs \<Longrightarrow> ps = drop i xs \<Longrightarrow>
         teamRunInv xs (length xs) (scanFrom (int i) ps s)"
proof (induction ps arbitrary: i s)
  case Nil
  then have "i = length xs" by simp
  then show ?case
    using Nil.prems(1) by simp
next
  case (Cons p ps)
  then have i: "i < length xs" by (metis drop_all list.distinct(1) not_le)
  have p: "p = xs ! i" "ps = drop (Suc i) xs"
    using Cons.prems(3) i by (simp_all add: Cons_nth_drop_Suc [symmetric])
  have "teamRunInv xs (Suc i) (scanStep s (xs ! i) (int i))"
    using valid suffix Cons.prems(1) i by (rule teamRunInv_scanStep)
  then have "teamRunInv xs (length xs) (scanFrom (int (Suc i)) ps (scanStep s (xs ! i) (int i)))"
    using i p(2) by (intro Cons.IH) simp_all
  then show ?case by (simp add: p(1) add.commute)
qed

lemma interleavingPass_teamIds:
  assumes valid: "\<forall>p \<in> set xs. teamIdOf p \<noteq> Some []"
    and suffix: "\<forall>i j. i < j \<and> j < length xs \<and> team (xs ! i) = None \<longrightarrow> team (xs ! j) = None"
  shows "map teamIdOf (updatedPeople (interleavingPass xs)) = map teamIdOf xs"
proof -
  let ?init = "\<lparr>currTeam = None, startPointer = 0, startSearchFlag = False,
                 updatedPeople = xs, console = []\<rparr>"
  let ?s = "scanFrom 0 xs ?init"
  have "teamRunInv xs 0 ?init" by (simp add: teamRunInv_def)
  then have "teamRunInv xs (length xs) (scanFrom (int 0) xs ?init)"
    using teamRunInv_scanFrom [OF valid suffix, of 0 ?init xs] by simp
  then have inv: "teamRunInv xs (length xs) ?s" by simp
  show ?thesis
  proof (cases "startSearchFlag ?s")
    case False
    then show ?thesis using inv by (simp add: interleavingPass_def Let_def teamRunInv_def)
  next
    case True
    have ids: "map teamIdOf (updatedPeople ?s) = map teamIdOf xs"
      and run: "\<And>j. nat (startPointer ?s) \<le> j \<Longrightarrow> j < length xs \<Longrightarrow>
                  teamIdOf (xs ! j) = currTeam ?s"
      using inv True by (auto simp: teamRunInv_def)
    have same: "\<forall>j. nat (startPointer ?s) \<le> j \<and> j \<le> nat (int (length (updatedPeople ?s)) - 1)
                  \<and> j < length (updatedPeople ?s) \<longrightarrow>
                  teamIdOf (updatedPeople ?s ! j) = currTeam ?s"
    proof (intro allI impI)
      fix j
      assume j: "nat (startPointer ?s) \<le> j \<and> j \<le> nat (int (length (updatedPeople ?s)) - 1)
                  \<and> j < length (updatedPeople ?s)"
      have l: "length (updatedPeople ?s) = length xs" using ids by (metis length_map)
      have "teamIdOf (updatedPeople ?s ! j) = teamIdOf (xs ! j)"
        using ids j by (metis length_map nth_map)
      then show "teamIdOf (updatedPeople ?s ! j) = currTeam ?s" using run [of j] j l by simp
    qed
    show ?thesis
      using map_teamIdOf_reorderSubArray [OF same] ids True
      by (simp add: interleavingPass_def Let_def updatedPeople_flushRun)
  qed
qed

lemma validTeamIds_groupedPeople:
  "validTeamIds people \<Longrightarrow> validTeamIds (groupedPeople localeCompare people)"
  by (simp add: validTeamIds_iff groupedPeople_def set_sortJS)

lemma rankedLayout_teamIds:
  assumes g: "validTeamIds grouped"
  shows "map teamIdOf (updatedPeople (interleavingPass (rankedPeople localeCompare grouped))) =
         map teamIdOf (rankedPeople localeCompare grouped)"
proof -
  have "\<forall>p \<in> set (rankedPeople localeCompare grouped). teamIdOf p \<noteq> Some []"
    using g by (simp add: validTeamIds_iff set_rankedPeople)
  moreover have "\<forall>i j. i < j \<and> j < length (rankedPeople localeCompare grouped) \<and>
       team (rankedPeople localeCompare grouped ! i) = None \<longrightarrow>
       team (rankedPeople localeCompare grouped ! j) = None"
    using rankedPeople_teamless_suffix [OF g] by blast
  ultimately show ?thesis by (rule interleavingPass_teamIds)
qed

lemma calculateDeskLayout_teamIds:
  assumes "validTeamIds people"
  shows "map teamIdOf (calculateDeskLayout localeCompare people) =
         map teamIdOf (rankedPeople localeCompare (groupedPeople localeCompare people))"
  unfolding calculateDeskLayout_def
  using validTeamIds_groupedPeople [OF assms] by (rule rankedLayout_teamIds)

section \<open>The place of the people without a team\<close>

lemma team_None_iff: "team p = None \<longleftrightarrow> teamIdOf p = None"
  by (simp add: teamIdOf_def)

lemma nth_teamIdOf:
  assumes "map teamIdOf xs = map teamIdOf ys" "i < length xs"
  shows "teamIdOf (xs ! i) = teamIdOf (ys ! i)"
  using assms by (metis length_map nth_map)

lemma rankedLayout_teamless_last:
  assumes g: "validTeamIds grouped"
  shows "teamlessLast (updatedPeople (interleavingPass (rankedPeople localeCompare grouped)))"
proof -
  let ?out = "updatedPeople (interleavingPass (rankedPeople localeCompare grouped))"
  let ?ranked = "rankedPeople localeCompare grouped"
  have ids: "map teamIdOf ?out = map teamIdOf ?ranked"
    using g by (rule rankedLayout_teamIds)
  then have len: "length ?out = length ?ranked" by (metis length_map)
  have "j < i"
    if "i < length ?out" "j < length ?out" "team (?out ! i) = None" "team (?out ! j) \<noteq> None"
    for i j
  proof (rule ccontr)
    assume "\<not> j < i"
    moreover have "i \<noteq> j" using that by auto
    ultimately have ij: "i < j" by simp
    have "team (?ranked ! i) = None"
      using that nth_teamIdOf [OF ids, of i] by (simp add: team_None_iff)
    then have "team (?ranked ! j) = None"
      using ij that len by (intro rankedPeople_teamless_suffix [OF g, of i j]) simp_all
    then show False
      using that nth_teamIdOf [OF ids, of j] by (simp add: team_None_iff)
  qed
  then show ?thesis by (auto simp: teamlessLast_def)
qed




text \<open>
  What the second sort establishes: along the layout the looked-up rank never
  decreases, so DogHaters teams (0) come before Mixed teams (1), these before DogLovers
  teams (3), and these before the people without a team (the largest safe integer).
\<close>

lemma layout_sorted_by_rank:
  assumes "validTeamIds people"
  shows "sorted (map (rankOf (teamRankMapOf localeCompare people))
                   (calculateDeskLayout localeCompare people))"
proof -
  let ?m = "teamRankMapOf localeCompare people"
  let ?ranked = "rankedPeople localeCompare (groupedPeople localeCompare people)"
  have "sorted (map (rankOf ?m) ?ranked)"
    unfolding teamRankMapOf_def by (rule sorted_rank_rankedPeople)
  moreover have "map (rankOf ?m) (calculateDeskLayout localeCompare people) =
                 map (rankOf ?m) ?ranked"
  proof -
    have "rankOf ?m = (\<lambda>k. case ?m (lookupKey k) of Some r \<Rightarrow> r | None \<Rightarrow> MAX_SAFE_INTEGER) \<circ> teamIdOf"
      by (auto simp: rankOf_def fun_eq_iff)
    then show ?thesis
      using calculateDeskLayout_teamIds [OF assms, of localeCompare] by (metis map_map)
  qed
  ultimately show ?thesis by simp
qed

text \<open>
  C3. The category ordering of the spec puts the people without a team between the
  Mixed teams and the DogLovers teams, where the enum has NoTeam. The code does not:
  here team a is DogLovers, the teamless run has an entry under \<^verbatim>\<open>null\<close>, and Ned, who
  has no team, sits after Ann of team a. No two team ids are compared on this input,
  so this is the layout for every collation.
\<close>

theorem teamless_after_dog_lovers:
  "sortTeamsByCategory (groupedPeople localeCompare loversAndTeamless) =
     [\<lparr>teamId = Some ''a'', category = DOG_LOVERS\<rparr>, \<lparr>teamId = None, category = DOG_LOVERS\<rparr>]
   \<and> map person_id (calculateDeskLayout localeCompare loversAndTeamless) = [''Ann'', ''Ned'']
   \<and> segmentOf (teamRankMapOf localeCompare loversAndTeamless)
        (calculateDeskLayout localeCompare loversAndTeamless ! 0) = categoryOrdinal DOG_LOVERS
   \<and> segmentOf (teamRankMapOf localeCompare loversAndTeamless)
        (calculateDeskLayout localeCompare loversAndTeamless ! 1) = categoryOrdinal NO_TEAM"
  by code_simp

text \<open>So the segments decrease along this layout.\<close>

lemma category_order_violated: "\<not> categoryOrdered localeCompare loversAndTeamless"
  by code_simp

section \<open>Team blocks\<close>

text \<open>
  When the collation separates the team ids, the second comparator is consistent on
  the people of an input with valid ids, and the second sort puts the people of one
  team next to each other.
\<close>

lemma byTeamRank_le:
  "byTeamRank localeCompare m a b \<le> 0 \<longleftrightarrow>
     rankOf m a < rankOf m b \<or>
     (rankOf m a = rankOf m b \<and>
      (\<forall>ta tb. team a = Some ta \<and> team b = Some tb \<longrightarrow>
         localeCompare (team_id ta) (team_id tb) \<le> 0))"
  by (auto simp: byTeamRank_def Let_def split: option.splits)

lemma byTeamRank_total:
  assumes "separatingCollation localeCompare"
  shows "byTeamRank localeCompare m a b \<le> 0 \<or> byTeamRank localeCompare m b a \<le> 0"
proof (cases "rankOf m a = rankOf m b")
  case False
  then have "byTeamRank localeCompare m a b = rankOf m a - rankOf m b"
    "byTeamRank localeCompare m b a = rankOf m b - rankOf m a"
    by (simp_all add: byTeamRank_def Let_def)
  then show ?thesis by linarith
next
  case True
  have tot: "localeCompare x y \<le> 0 \<or> localeCompare y x \<le> 0" for x y
    using assms unfolding separatingCollation_def by blast
  show ?thesis
  proof (cases "team a")
    case None
    then have "byTeamRank localeCompare m a b = 0"
      by (simp add: byTeamRank_def Let_def True)
    then show ?thesis by simp
  next
    case a: (Some ta)
    show ?thesis
    proof (cases "team b")
      case None
      then have "byTeamRank localeCompare m a b = 0"
        by (simp add: byTeamRank_def Let_def True a)
      then show ?thesis by simp
    next
      case (Some tb)
      then have "byTeamRank localeCompare m a b = localeCompare (team_id ta) (team_id tb)"
        "byTeamRank localeCompare m b a = localeCompare (team_id tb) (team_id ta)"
        by (simp_all add: byTeamRank_def Let_def True a)
      then show ?thesis using tot [of "team_id ta" "team_id tb"] by simp
    qed
  qed
qed

lemma byTeamRank_trans:
  assumes sep: "separatingCollation localeCompare"
    and a: "team a = None \<longrightarrow> rankOf m a = MAX_SAFE_INTEGER" "team a \<noteq> None \<longrightarrow> rankOf m a \<le> 3"
    and b: "team b = None \<longrightarrow> rankOf m b = MAX_SAFE_INTEGER" "team b \<noteq> None \<longrightarrow> rankOf m b \<le> 3"
    and c: "team c = None \<longrightarrow> rankOf m c = MAX_SAFE_INTEGER" "team c \<noteq> None \<longrightarrow> rankOf m c \<le> 3"
    and ab: "byTeamRank localeCompare m a b \<le> 0" and bc: "byTeamRank localeCompare m b c \<le> 0"
  shows "byTeamRank localeCompare m a c \<le> 0"
proof (cases "rankOf m a < rankOf m c")
  case True
  then show ?thesis by (simp add: byTeamRank_le)
next
  case False
  have chain: "localeCompare x z \<le> 0" if "localeCompare x y \<le> 0" "localeCompare y z \<le> 0" for x y z
    using sep that unfolding separatingCollation_def by blast
  have le: "rankOf m a \<le> rankOf m b" "rankOf m b \<le> rankOf m c"
    using ab bc by (auto simp: byTeamRank_le)
  then have eq: "rankOf m a = rankOf m b" "rankOf m b = rankOf m c" using False by auto
  have "localeCompare (team_id ta) (team_id tc) \<le> 0" if "team a = Some ta" "team c = Some tc" for ta tc
  proof -
    have "rankOf m a \<le> 3" using a that by simp
    then have "rankOf m b \<noteq> MAX_SAFE_INTEGER" using eq by (simp add: MAX_SAFE_INTEGER_def)
    then obtain tb where tb: "team b = Some tb" using b by (cases "team b") auto
    have "localeCompare (team_id ta) (team_id tb) \<le> 0"
      using ab eq that tb by (simp add: byTeamRank_le)
    moreover have "localeCompare (team_id tb) (team_id tc) \<le> 0"
      using bc eq that tb by (simp add: byTeamRank_le)
    ultimately show ?thesis by (rule chain)
  qed
  then show ?thesis using eq by (simp add: byTeamRank_le)
qed

lemma sorted_rankedPeople:
  assumes sep: "separatingCollation localeCompare" and v: "validTeamIds grouped"
  shows "sorted_wrt
           (\<lambda>a b. byTeamRank localeCompare (buildTeamRankMap (sortTeamsByCategory grouped)) a b \<le> 0)
           (rankedPeople localeCompare grouped)"
  unfolding rankedPeople_def
proof (rule sorted_sortJS)
  fix a b
  show "byTeamRank localeCompare (buildTeamRankMap (sortTeamsByCategory grouped)) a b \<le> 0 \<or>
        byTeamRank localeCompare (buildTeamRankMap (sortTeamsByCategory grouped)) b a \<le> 0"
    using sep by (rule byTeamRank_total)
next
  fix a b c
  assume "a \<in> set grouped" "b \<in> set grouped" "c \<in> set grouped"
    and "byTeamRank localeCompare (buildTeamRankMap (sortTeamsByCategory grouped)) a b \<le> 0"
    and "byTeamRank localeCompare (buildTeamRankMap (sortTeamsByCategory grouped)) b c \<le> 0"
  then show "byTeamRank localeCompare (buildTeamRankMap (sortTeamsByCategory grouped)) a c \<le> 0"
    using rank_of_member [OF v, of a] rank_of_member [OF v, of b] rank_of_member [OF v, of c]
    by (intro byTeamRank_trans [OF sep, of a _ b c]) simp_all
qed

lemma rankOf_teamIdOf: "teamIdOf a = teamIdOf b \<Longrightarrow> rankOf m a = rankOf m b"
  by (simp add: rankOf_def)

lemma rankedPeople_contiguous:
  assumes sep: "separatingCollation localeCompare" and v: "validTeamIds grouped"
    and ijk: "i < j" "j < k" "k < length (rankedPeople localeCompare grouped)"
    and ti: "team (rankedPeople localeCompare grouped ! i) \<noteq> None"
    and same: "teamIdOf (rankedPeople localeCompare grouped ! i) =
               teamIdOf (rankedPeople localeCompare grouped ! k)"
  shows "teamIdOf (rankedPeople localeCompare grouped ! j) =
         teamIdOf (rankedPeople localeCompare grouped ! i)"
proof -
  let ?m = "buildTeamRankMap (sortTeamsByCategory grouped)"
  let ?xs = "rankedPeople localeCompare grouped"
  have anti: "x = y" if "localeCompare x y \<le> 0" "localeCompare y x \<le> 0" for x y
    using sep that unfolding separatingCollation_def by blast
  have mem: "?xs ! i \<in> set grouped" "?xs ! j \<in> set grouped"
    using ijk set_rankedPeople [of localeCompare grouped] nth_mem [of i ?xs] nth_mem [of j ?xs]
    by auto
  have ij: "byTeamRank localeCompare ?m (?xs ! i) (?xs ! j) \<le> 0"
    and jk: "byTeamRank localeCompare ?m (?xs ! j) (?xs ! k) \<le> 0"
    using sorted_rankedPeople [OF sep v] ijk by (simp_all add: sorted_wrt_iff_nth_less)
  have rk: "rankOf ?m (?xs ! i) = rankOf ?m (?xs ! k)" using same by (rule rankOf_teamIdOf)
  have eq: "rankOf ?m (?xs ! j) = rankOf ?m (?xs ! i)"
    using ij jk rk by (auto simp: byTeamRank_le)
  obtain ta where ta: "team (?xs ! i) = Some ta" using ti by auto
  have "rankOf ?m (?xs ! i) \<le> 3" using rank_of_member [OF v mem(1)] ti by simp
  then have "rankOf ?m (?xs ! j) \<noteq> MAX_SAFE_INTEGER" using eq by (simp add: MAX_SAFE_INTEGER_def)
  then obtain tb where tb: "team (?xs ! j) = Some tb"
    using rank_of_member [OF v mem(2)] by (cases "team (?xs ! j)") auto
  obtain tc where tc: "team (?xs ! k) = Some tc" "team_id tc = team_id ta"
    using same ta by (cases "team (?xs ! k)") (auto simp: teamIdOf_def)
  have "localeCompare (team_id ta) (team_id tb) \<le> 0"
    using ij eq ta tb by (simp add: byTeamRank_le)
  moreover have "localeCompare (team_id tb) (team_id ta) \<le> 0"
    using jk eq rk tb tc by (simp add: byTeamRank_le)
  ultimately have "team_id ta = team_id tb" by (rule anti)
  then show ?thesis by (simp add: teamIdOf_def ta tb)
qed

lemma rankedLayout_contiguous:
  assumes sep: "separatingCollation localeCompare" and g: "validTeamIds grouped"
  shows "contiguousTeams (updatedPeople (interleavingPass (rankedPeople localeCompare grouped)))"
proof -
  let ?out = "updatedPeople (interleavingPass (rankedPeople localeCompare grouped))"
  let ?ranked = "rankedPeople localeCompare grouped"
  have ids: "map teamIdOf ?out = map teamIdOf ?ranked"
    using g by (rule rankedLayout_teamIds)
  then have len: "length ?out = length ?ranked" by (metis length_map)
  have "teamIdOf (?out ! j) = teamIdOf (?out ! i)"
    if "k < length ?out" "j < k" "i < j" "team (?out ! i) \<noteq> None"
      "teamIdOf (?out ! i) = teamIdOf (?out ! k)" for i j k
  proof -
    have e: "teamIdOf (?out ! i) = teamIdOf (?ranked ! i)"
      "teamIdOf (?out ! j) = teamIdOf (?ranked ! j)"
      "teamIdOf (?out ! k) = teamIdOf (?ranked ! k)"
      using that by (simp_all add: nth_teamIdOf [OF ids])
    have "team (?ranked ! i) \<noteq> None" using that(4) e(1) by (simp add: team_None_iff)
    then have "teamIdOf (?ranked ! j) = teamIdOf (?ranked ! i)"
      using that e len by (intro rankedPeople_contiguous [OF sep g, of i j k]) simp_all
    then show ?thesis by (simp add: e)
  qed
  then show ?thesis by (simp add: contiguousTeams_def)
qed

text \<open>
  The first comparator skips the team ids whenever one of the two people has no team,
  so it is not a consistent comparator on every input, and the order the first sort
  returns is then the engine's choice. The layout properties do not depend on that
  choice: they hold for the layout computed from any permutation of the input.
\<close>

lemma layout_of_any_grouping:
  assumes "mset grouped = mset people" "validTeamIds people"
  shows "mset (updatedPeople (interleavingPass (rankedPeople localeCompare grouped))) = mset people
         \<and> teamlessLast (updatedPeople (interleavingPass (rankedPeople localeCompare grouped)))
         \<and> console (interleavingPass (rankedPeople localeCompare grouped)) = []
         \<and> (separatingCollation localeCompare \<longrightarrow>
              contiguousTeams (updatedPeople (interleavingPass (rankedPeople localeCompare grouped))))"
proof -
  have "set grouped = set people" using assms(1) by (rule mset_eq_setD)
  then have g: "validTeamIds grouped" using assms(2) by (simp add: validTeamIds_iff)
  show ?thesis
    using rankedLayout_contiguous [OF _ g, of localeCompare]
      rankedLayout_teamless_last [OF g, of localeCompare] assms(1)
    by (simp add: mset_interleavingPass console_interleavingPass rankedPeople_def mset_sortJS)
qed

text \<open>
  So teams sit together in the layout of every input whose team ids are not empty,
  under every collation that separates the ids. The comparison by character code is
  such a collation.
\<close>

lemma teams_contiguous_when_ids_separated:
  assumes "separatingCollation localeCompare" "validTeamIds people"
  shows "contiguousTeams (calculateDeskLayout localeCompare people)"
  unfolding calculateDeskLayout_def
  using assms(1) validTeamIds_groupedPeople [OF assms(2)] by (rule rankedLayout_contiguous)

lemma separatingCollation_codePointCompare: "separatingCollation codePointCompare"
  by (auto simp: separatingCollation_def codePointCompare_def split: if_splits)

lemma officeFloor_layout:
  "validTeamIds officeFloor \<and> contiguousTeams (calculateDeskLayout codePointCompare officeFloor)
   \<and> map person_id (calculateDeskLayout codePointCompare officeFloor) =
       [''Ben'', ''Charlie'', ''Alice'', ''David'', ''Bob'', ''Eve'', ''Ned'']"
proof -
  have v: "validTeamIds officeFloor" by code_simp
  have "map person_id (calculateDeskLayout codePointCompare officeFloor) =
       [''Ben'', ''Charlie'', ''Alice'', ''David'', ''Bob'', ''Eve'', ''Ned'']"
    by code_simp
  then show ?thesis
    using v teams_contiguous_when_ids_separated [OF separatingCollation_codePointCompare v]
    by simp
qed

text \<open>
  C2. The code does not keep every team together. The host's collation may compare two
  different team ids as equal: the default collation gives no weight to control
  characters, so the id made of the letter a and the character of code 1 compares
  equal to the id a. Both sorts then see every pair of the three people below as
  equal and keep the input order, the last scan closes three runs of one person, and
  Al of team a sits between Pat and Pia, the two members of the other team. No team id
  is empty here, and both comparators are consistent on these people.
\<close>

theorem teams_split_by_equal_collation:
  "validTeamIds ignorableIdFloor
   \<and> compareIgnoringControls [CHR ''a'', CHR 0x01] ''a'' = 0
   \<and> compareIgnoringControls ''a'' [CHR ''a'', CHR 0x01] = 0
   \<and> map person_id (calculateDeskLayout compareIgnoringControls ignorableIdFloor) =
       [''Pat'', ''Al'', ''Pia'']
   \<and> map teamIdOf (calculateDeskLayout compareIgnoringControls ignorableIdFloor) =
       [Some [CHR ''a'', CHR 0x01], Some ''a'', Some [CHR ''a'', CHR 0x01]]"
  by code_simp

lemma teams_split_not_contiguous:
  "\<not> contiguousTeams (calculateDeskLayout compareIgnoringControls ignorableIdFloor)"
  by code_simp

text \<open>
  The same layout results when Pat has a dog. The first comparator is then not
  consistent (Pat equals Al, Al equals Pia, Pat is after Pia), and the first sort of
  the model keeps the input order.
\<close>

lemma teams_split_with_dog_owner:
  "map person_id (calculateDeskLayout compareIgnoringControls ignorableIdFloorHave) =
     [''Pat'', ''Al'', ''Pia'']
   \<and> \<not> contiguousTeams (calculateDeskLayout compareIgnoringControls ignorableIdFloorHave)"
  by code_simp

text \<open>
  A team whose id is the empty string is not kept together either, under any
  collation that compares a string equal to itself: the truthiness tests take its
  members for people without a team, the team gets no entry in the rank map, and the
  layout is the input order, with Ned between Pat and Pia.
\<close>

lemma empty_team_id_splits_team:
  "map person_id (calculateDeskLayout codePointCompare emptyIdFloor) =
     [''Pat'', ''Ned'', ''Pia'', ''Nat'']
   \<and> \<not> contiguousTeams (calculateDeskLayout codePointCompare emptyIdFloor)"
  by code_simp

end
